theory Spec2Isabelle
  imports Complex_Main "HOL-Library.Sublist"
begin

section \<open>Strings\<close>

text \<open>
  Python strings are modelled as \<^typ>\<open>string\<close>: a character is a code point below 256, and
  the classes used by the source (\<^verbatim>\<open>str.split\<close>, \<^verbatim>\<open>str.strip\<close>, \<^verbatim>\<open>str.lower\<close>,
  \<^verbatim>\<open>str.splitlines\<close> and the classes of regular expressions) are Python's classes of these
  code points. Text with code points from 256 on is outside the model.
\<close>

definition is_space :: "char \<Rightarrow> bool" where
  \<comment> \<open>\<^verbatim>\<open>str.isspace\<close>, also the class \<^verbatim>\<open>\s\<close>: TAB, LF, VT, FF, CR, FS, GS, RS, US, the blank,
      NEL (133) and the no-break space (160)\<close>
  "is_space c =
     (let n = of_char c :: nat
      in (9 \<le> n \<and> n \<le> 13) \<or> (28 \<le> n \<and> n \<le> 32) \<or> n = 133 \<or> n = 160)"

definition is_upper :: "char \<Rightarrow> bool" where
  "is_upper c = (let n = of_char c :: nat in 65 \<le> n \<and> n \<le> 90)"

definition is_lower :: "char \<Rightarrow> bool" where
  "is_lower c = (let n = of_char c :: nat in 97 \<le> n \<and> n \<le> 122)"

definition is_digit :: "char \<Rightarrow> bool" where
  "is_digit c = (let n = of_char c :: nat in 48 \<le> n \<and> n \<le> 57)"

definition is_latin_alnum :: "char \<Rightarrow> bool" where
  \<comment> \<open>the code points from 128 to 255 for which \<^verbatim>\<open>str.isalnum\<close> holds: the ordinal
      indicators, the superscript digits, the micro sign, the fractions and the letters\<close>
  "is_latin_alnum c =
     (let n = of_char c :: nat
      in n = 170 \<or> n = 178 \<or> n = 179 \<or> n = 181 \<or> n = 185 \<or> n = 186 \<or>
         (188 \<le> n \<and> n \<le> 190) \<or> (192 \<le> n \<and> n \<le> 214) \<or>
         (216 \<le> n \<and> n \<le> 246) \<or> (248 \<le> n \<and> n \<le> 255))"

definition is_word :: "char \<Rightarrow> bool" where
  \<comment> \<open>the class \<^verbatim>\<open>\w\<close>: alphanumeric, or the underscore\<close>
  "is_word c = (is_upper c \<or> is_lower c \<or> is_digit c \<or> c = CHR ''_'' \<or> is_latin_alnum c)"

definition is_latin_upper :: "char \<Rightarrow> bool" where
  \<comment> \<open>the capital letters from 192 to 222; 215 is the multiplication sign\<close>
  "is_latin_upper c = (let n = of_char c :: nat in 192 \<le> n \<and> n \<le> 222 \<and> n \<noteq> 215)"

definition lower_char :: "char \<Rightarrow> char" where
  "lower_char c =
     (if is_upper c \<or> is_latin_upper c then char_of (of_char c + (32 :: nat)) else c)"

definition lower :: "string \<Rightarrow> string" where
  \<comment> \<open>\<^verbatim>\<open>str.lower\<close>\<close>
  "lower s = map lower_char s"

definition lstrip :: "string \<Rightarrow> string" where
  "lstrip s = dropWhile is_space s"

definition rstrip :: "string \<Rightarrow> string" where
  "rstrip s = rev (dropWhile is_space (rev s))"

definition strip :: "string \<Rightarrow> string" where
  \<comment> \<open>\<^verbatim>\<open>str.strip\<close>\<close>
  "strip s = rstrip (lstrip s)"

definition startswith :: "string \<Rightarrow> string \<Rightarrow> bool" where
  \<comment> \<open>\<^verbatim>\<open>s.startswith(p)\<close>\<close>
  "startswith s p = (take (length p) s = p)"

definition endswith :: "string \<Rightarrow> string \<Rightarrow> bool" where
  \<comment> \<open>\<^verbatim>\<open>s.endswith(p)\<close>\<close>
  "endswith s p = (length p \<le> length s \<and> drop (length s - length p) s = p)"

fun contains :: "string \<Rightarrow> string \<Rightarrow> bool" where
  \<comment> \<open>\<^verbatim>\<open>p in s\<close>\<close>
  "contains [] p = (p = [])"
| "contains (c # cs) p = (startswith (c # cs) p \<or> contains cs p)"

fun split_acc :: "string \<Rightarrow> string \<Rightarrow> string list" where
  "split_acc w [] = (if w = [] then [] else [w])"
| "split_acc w (c # cs) =
     (if is_space c then (if w = [] then split_acc [] cs else w # split_acc [] cs)
      else split_acc (w @ [c]) cs)"

definition py_split :: "string \<Rightarrow> string list" where
  \<comment> \<open>\<^verbatim>\<open>text.split()\<close>: the maximal runs of characters that are not white space\<close>
  "py_split text = split_acc [] text"

fun join :: "string \<Rightarrow> string list \<Rightarrow> string" where
  \<comment> \<open>\<^verbatim>\<open>sep.join(ws)\<close>\<close>
  "join sep [] = []"
| "join sep [w] = w"
| "join sep (w # v # ws) = w @ sep @ join sep (v # ws)"

section \<open>Python sequences\<close>

definition slice_index :: "nat \<Rightarrow> int \<Rightarrow> nat" where
  \<comment> \<open>a slice bound on a sequence of length \<open>n\<close>: negative bounds count from the end, and
      every bound is clamped to \<open>0..n\<close>\<close>
  "slice_index n i = (if i < 0 then nat (max 0 (int n + i)) else min n (nat i))"

definition py_slice :: "'a list \<Rightarrow> int \<Rightarrow> int \<Rightarrow> 'a list" where
  \<comment> \<open>\<^verbatim>\<open>xs[i:j]\<close>\<close>
  "py_slice xs i j =
     (let a = slice_index (length xs) i; b = slice_index (length xs) j
      in take (b - a) (drop a xs))"

section \<open>The chunker\<close>

definition chunk_floor :: "int \<Rightarrow> int" where
  \<comment> \<open>\<^verbatim>\<open>max(30, chunk_size_words // 4)\<close>\<close>
  "chunk_floor chunk_size_words = max 30 (chunk_size_words div 4)"

definition chunk_step :: "int \<Rightarrow> int \<Rightarrow> nat" where
  \<comment> \<open>\<^verbatim>\<open>max(1, chunk_size_words - overlap_words)\<close>\<close>
  "chunk_step chunk_size_words overlap_words = nat (max 1 (chunk_size_words - overlap_words))"

definition window_end :: "string list \<Rightarrow> int \<Rightarrow> nat \<Rightarrow> int" where
  \<comment> \<open>\<^verbatim>\<open>min(len(words), start + chunk_size_words)\<close>\<close>
  "window_end words chunk_size_words start = min (int (length words)) (int start + chunk_size_words)"

definition window :: "string list \<Rightarrow> int \<Rightarrow> nat \<Rightarrow> string list" where
  \<comment> \<open>\<^verbatim>\<open>words[start:end]\<close>\<close>
  "window words chunk_size_words start =
     py_slice words (int start) (window_end words chunk_size_words start)"

text \<open>
  The body of \<^verbatim>\<open>for start in range(0, len(words), step)\<close>, entered at \<open>start\<close>: the
  loop ends when the range is exhausted, at the first window below the floor (first
  \<^verbatim>\<open>break\<close>), or after the first window that reaches the end of the words (second
  \<^verbatim>\<open>break\<close>).
\<close>

function chunk_loop :: "string list \<Rightarrow> int \<Rightarrow> int \<Rightarrow> nat \<Rightarrow> string list" where
  "chunk_loop words chunk_size_words overlap_words start =
     (if length words \<le> start then []
      else if int (length (window words chunk_size_words start)) < chunk_floor chunk_size_words
        then []
      else join '' '' (window words chunk_size_words start) #
        (if int (length words) \<le> window_end words chunk_size_words start then []
         else chunk_loop words chunk_size_words overlap_words
                (start + chunk_step chunk_size_words overlap_words)))"
  by pat_completeness auto
termination
  by (relation "measure (\<lambda>(words, chunk_size_words, overlap_words, start). length words - start)")
     (auto simp: chunk_step_def)

definition sliding_window_chunk :: "string \<Rightarrow> int \<Rightarrow> int \<Rightarrow> string list" where
  "sliding_window_chunk text chunk_size_words overlap_words =
     (let words = py_split text
      in if words = [] then [] else chunk_loop words chunk_size_words overlap_words 0)"

section \<open>Regular expressions\<close>

text \<open>
  The patterns of the source are written in a small syntax tree, and matched the way
  Python's backtracking matcher does: \<open>ms ic s r i\<close> lists, in the order in which the
  matcher tries them, the positions at which a match of \<open>r\<close> that starts at position
  \<open>i\<close> of \<open>s\<close> can end, each with the span of the capturing group when the group took
  part. \<open>ic\<close> is the flag \<^verbatim>\<open>re.IGNORECASE\<close>.
\<close>

datatype cls =
    AnyChar          \<comment> \<open>\<^verbatim>\<open>.\<close>: any character but the newline\<close>
  | Space            \<comment> \<open>\<^verbatim>\<open>\s\<close>\<close>
  | Digit            \<comment> \<open>\<^verbatim>\<open>\d\<close>\<close>
  | Upper            \<comment> \<open>\<^verbatim>\<open>[A-Z]\<close>\<close>
  | Lower            \<comment> \<open>\<^verbatim>\<open>[a-z]\<close>\<close>
  | Letter           \<comment> \<open>\<^verbatim>\<open>[A-Za-z]\<close>\<close>
  | OneOf string     \<comment> \<open>\<^verbatim>\<open>[...]\<close>\<close>
  | NoneOf string    \<comment> \<open>\<^verbatim>\<open>[^...]\<close>\<close>

datatype rx =
    Lit string       \<comment> \<open>literal text\<close>
  | Cls cls          \<comment> \<open>one character of a class\<close>
  | Seq rx rx
  | Alt rx rx        \<comment> \<open>\<^verbatim>\<open>a|b\<close>, the left alternative first\<close>
  | Opt rx           \<comment> \<open>\<^verbatim>\<open>a?\<close>\<close>
  | Star rx          \<comment> \<open>\<^verbatim>\<open>a*\<close>, greedy\<close>
  | Plus rx          \<comment> \<open>\<^verbatim>\<open>a+\<close>, greedy\<close>
  | LazyStar rx      \<comment> \<open>\<^verbatim>\<open>a*?\<close>\<close>
  | Grp rx           \<comment> \<open>the capturing group\<close>
  | WordB            \<comment> \<open>\<^verbatim>\<open>\b\<close>\<close>
  | Eos              \<comment> \<open>\<^verbatim>\<open>$\<close>\<close>
  | Behind cls       \<comment> \<open>\<^verbatim>\<open>(?<=[...])\<close>\<close>

fun seqs :: "rx list \<Rightarrow> rx" where
  "seqs [] = Lit []"
| "seqs [r] = r"
| "seqs (r # rs) = Seq r (seqs rs)"

fun alts :: "rx list \<Rightarrow> rx" where
  "alts [] = Cls (OneOf [])"
| "alts [r] = r"
| "alts (r # rs) = Alt r (alts rs)"

definition is_latin_lower :: "char \<Rightarrow> bool" where
  \<comment> \<open>the small letters from 224 to 254, whose capital is a code point below 256; 247 is
      the division sign\<close>
  "is_latin_lower c = (let n = of_char c :: nat in 224 \<le> n \<and> n \<le> 254 \<and> n \<noteq> 247)"

definition upper_char :: "char \<Rightarrow> char" where
  "upper_char c =
     (if is_lower c \<or> is_latin_lower c then char_of (of_char c - (32 :: nat)) else c)"

fun cls_match :: "cls \<Rightarrow> char \<Rightarrow> bool" where
  "cls_match AnyChar c = (c \<noteq> CHR 0x0A)"
| "cls_match Space c = is_space c"
| "cls_match Digit c = is_digit c"
| "cls_match Upper c = is_upper c"
| "cls_match Lower c = is_lower c"
| "cls_match Letter c = (is_upper c \<or> is_lower c)"
| "cls_match (OneOf cs) c = (c \<in> set cs)"
| "cls_match (NoneOf cs) c = (c \<notin> set cs)"

definition cls_at :: "bool \<Rightarrow> cls \<Rightarrow> char \<Rightarrow> bool" where
  \<comment> \<open>under \<^verbatim>\<open>re.IGNORECASE\<close> a class also takes a character whose other case it holds\<close>
  "cls_at ic k c =
     (if ic then cls_match k (lower_char c) \<or> cls_match k (upper_char c) else cls_match k c)"

definition lit_at :: "bool \<Rightarrow> string \<Rightarrow> string \<Rightarrow> nat \<Rightarrow> bool" where
  "lit_at ic s l i =
     (let t = take (length l) (drop i s) in if ic then lower t = lower l else t = l)"

definition word_before :: "string \<Rightarrow> nat \<Rightarrow> bool" where
  "word_before s i = (0 < i \<and> i \<le> length s \<and> is_word (s ! (i - 1)))"

definition word_after :: "string \<Rightarrow> nat \<Rightarrow> bool" where
  "word_after s i = (i < length s \<and> is_word (s ! i))"

definition word_boundary :: "string \<Rightarrow> nat \<Rightarrow> bool" where
  "word_boundary s i = (word_before s i \<noteq> word_after s i)"

definition at_end :: "string \<Rightarrow> nat \<Rightarrow> bool" where
  \<comment> \<open>\<^verbatim>\<open>$\<close> without \<^verbatim>\<open>re.MULTILINE\<close>: the end of the string, or just before a newline
      that ends the string\<close>
  "at_end s i = (i = length s \<or> (Suc i = length s \<and> s ! i = CHR 0x0A))"

type_synonym cap = "(nat \<times> nat) option"

type_synonym mres = "nat \<times> cap"

definition later_cap :: "cap \<Rightarrow> cap \<Rightarrow> cap" where
  "later_cap c c' = (case c' of None \<Rightarrow> c | Some x \<Rightarrow> Some x)"

definition bind_m :: "mres list \<Rightarrow> (nat \<Rightarrow> mres list) \<Rightarrow> mres list" where
  "bind_m xs f = concat (map (\<lambda>(j, c). map (\<lambda>(k, c'). (k, later_cap c c')) (f j)) xs)"

fun iter_greedy :: "(nat \<Rightarrow> mres list) \<Rightarrow> nat \<Rightarrow> nat \<Rightarrow> mres list" where
  \<comment> \<open>one more round of the body first, stopping here last; a round has to consume\<close>
  "iter_greedy f 0 i = [(i, None)]"
| "iter_greedy f (Suc n) i =
     bind_m (filter (\<lambda>(j, c). i < j) (f i)) (iter_greedy f n) @ [(i, None)]"

fun iter_lazy :: "(nat \<Rightarrow> mres list) \<Rightarrow> nat \<Rightarrow> nat \<Rightarrow> mres list" where
  \<comment> \<open>stopping here first, one more round of the body after that\<close>
  "iter_lazy f 0 i = [(i, None)]"
| "iter_lazy f (Suc n) i =
     (i, None) # bind_m (filter (\<lambda>(j, c). i < j) (f i)) (iter_lazy f n)"

primrec ms :: "bool \<Rightarrow> string \<Rightarrow> rx \<Rightarrow> nat \<Rightarrow> mres list" where
  "ms ic s (Lit l) i = (if lit_at ic s l i then [(i + length l, None)] else [])"
| "ms ic s (Cls k) i = (if i < length s \<and> cls_at ic k (s ! i) then [(Suc i, None)] else [])"
| "ms ic s (Seq a b) i = bind_m (ms ic s a i) (ms ic s b)"
| "ms ic s (Alt a b) i = ms ic s a i @ ms ic s b i"
| "ms ic s (Opt a) i = ms ic s a i @ [(i, None)]"
| "ms ic s (Star a) i = iter_greedy (ms ic s a) (length s - i) i"
| "ms ic s (Plus a) i = bind_m (ms ic s a i) (iter_greedy (ms ic s a) (length s - i))"
| "ms ic s (LazyStar a) i = iter_lazy (ms ic s a) (length s - i) i"
| "ms ic s (Grp a) i = map (\<lambda>(j, c). (j, Some (i, j))) (ms ic s a i)"
| "ms ic s WordB i = (if word_boundary s i then [(i, None)] else [])"
| "ms ic s Eos i = (if at_end s i then [(i, None)] else [])"
| "ms ic s (Behind k) i =
     (if 0 < i \<and> i \<le> length s \<and> cls_match k (s ! (i - 1)) then [(i, None)] else [])"

record rmatch =
  m_start :: nat
  m_end :: nat
  m_cap :: cap

definition match_at :: "bool \<Rightarrow> rx \<Rightarrow> string \<Rightarrow> nat \<Rightarrow> rmatch option" where
  \<comment> \<open>the match the backtracking matcher finds first at position \<open>i\<close>\<close>
  "match_at ic r s i =
     (case ms ic s r i of [] \<Rightarrow> None
      | (j, c) # rest \<Rightarrow> Some \<lparr>m_start = i, m_end = j, m_cap = c\<rparr>)"

fun search_in :: "bool \<Rightarrow> rx \<Rightarrow> string \<Rightarrow> nat list \<Rightarrow> rmatch option" where
  "search_in ic r s [] = None"
| "search_in ic r s (i # is) =
     (case match_at ic r s i of Some m \<Rightarrow> Some m | None \<Rightarrow> search_in ic r s is)"

definition re_search :: "bool \<Rightarrow> rx \<Rightarrow> string \<Rightarrow> rmatch option" where
  \<comment> \<open>\<^verbatim>\<open>re.search(r, s)\<close>: the start positions are tried from the left\<close>
  "re_search ic r s = search_in ic r s [0 ..< Suc (length s)]"

definition substr :: "string \<Rightarrow> nat \<Rightarrow> nat \<Rightarrow> string" where
  "substr s i j = take (j - i) (drop i s)"

definition group0 :: "string \<Rightarrow> rmatch \<Rightarrow> string" where
  \<comment> \<open>\<^verbatim>\<open>m.group(0)\<close>\<close>
  "group0 s m = substr s (m_start m) (m_end m)"

definition group1 :: "string \<Rightarrow> rmatch \<Rightarrow> string option" where
  \<comment> \<open>\<^verbatim>\<open>m.group(1)\<close>; \<open>None\<close> is Python's \<^verbatim>\<open>None\<close> of a group that took no part\<close>
  "group1 s m = (case m_cap m of None \<Rightarrow> None | Some (a, b) \<Rightarrow> Some (substr s a b))"

function spans_from :: "bool \<Rightarrow> rx \<Rightarrow> string \<Rightarrow> nat \<Rightarrow> (nat \<times> nat) list" where
  \<comment> \<open>the successive matches, none overlapping the one before, from position \<open>pos\<close> on\<close>
  "spans_from ic r s pos =
     (if length s < pos then []
      else case search_in ic r s [pos ..< Suc (length s)] of None \<Rightarrow> []
        | Some m \<Rightarrow> (m_start m, m_end m) #
            spans_from ic r s (max (Suc pos) (max (Suc (m_start m)) (m_end m))))"
  by pat_completeness auto
termination
  by (relation "measure (\<lambda>(ic, r, s, pos). Suc (length s) - pos)") auto

definition re_findall :: "bool \<Rightarrow> rx \<Rightarrow> string \<Rightarrow> string list" where
  \<comment> \<open>\<^verbatim>\<open>re.findall(r, s)\<close> for a pattern without a capturing group\<close>
  "re_findall ic r s = map (\<lambda>(i, j). substr s i j) (spans_from ic r s 0)"

fun cut_at :: "string \<Rightarrow> nat \<Rightarrow> (nat \<times> nat) list \<Rightarrow> string list" where
  "cut_at s pos [] = [substr s pos (length s)]"
| "cut_at s pos ((i, j) # sp) = substr s pos i # cut_at s j sp"

definition re_split :: "bool \<Rightarrow> rx \<Rightarrow> string \<Rightarrow> string list" where
  \<comment> \<open>\<^verbatim>\<open>re.split(r, s)\<close> for a pattern without a capturing group\<close>
  "re_split ic r s = cut_at s 0 (spans_from ic r s 0)"

section \<open>The answer generator\<close>

datatype error =
    NoChunks         \<comment> \<open>\<^verbatim>\<open>ValueError("No chunks created. ...")\<close>, the configuration error\<close>
  | IndexNotBuilt    \<comment> \<open>\<^verbatim>\<open>RuntimeError("Index not built. ...")\<close>, the state error\<close>
  | IndexError       \<comment> \<open>an index out of range\<close>
  | AttributeError   \<comment> \<open>a method called on \<^verbatim>\<open>None\<close>\<close>
  | EmptyArgmax      \<comment> \<open>\<^verbatim>\<open>np.argmax\<close> of an empty array\<close>
  | External string  \<comment> \<open>an error raised by the embedding model or by the vector index,
                         with its message\<close>

definition detect_question_type :: "string \<Rightarrow> string" where
  "detect_question_type question =
     (let q = strip (lower question)
      in if startswith q ''who'' then ''PERSON_OR_TEAM''
         else if startswith q ''which'' then ''ENTITY''
         else if startswith q ''when'' then ''DATE''
         else if startswith q ''why'' then ''REASON''
         else ''FACT'')"

definition month_names :: "string list" where
  "month_names =
     [''January'', ''February'', ''March'', ''April'', ''May'', ''June'', ''July'', ''August'',
      ''September'', ''October'', ''November'', ''December'', ''Jan'', ''Feb'', ''Mar'', ''Apr'',
      ''Jun'', ''Jul'', ''Aug'', ''Sep'', ''Sept'', ''Oct'', ''Nov'', ''Dec'']"

definition MONTH_RE :: rx where
  \<comment> \<open>\<^verbatim>\<open>(?:January|...|Dec)\.?\s+\d{1,2},\s*\d{4}\<close>\<close>
  "MONTH_RE =
     seqs [alts (map Lit month_names), Opt (Lit ''.''), Plus (Cls Space),
           Cls Digit, Opt (Cls Digit), Lit '','', Star (Cls Space),
           Cls Digit, Cls Digit, Cls Digit, Cls Digit]"

definition rx_proper_nouns :: rx where
  \<comment> \<open>\<^verbatim>\<open>\b[A-Z][a-z]+(?:\s[A-Z][a-z]+)*\b\<close>\<close>
  "rx_proper_nouns =
     seqs [WordB, Cls Upper, Plus (Cls Lower),
           Star (seqs [Cls Space, Cls Upper, Plus (Cls Lower)]), WordB]"

definition extract_proper_nouns :: "string \<Rightarrow> string list" where
  "extract_proper_nouns sentence = re_findall False rx_proper_nouns sentence"

definition rx_hosting :: rx where
  \<comment> \<open>\<^verbatim>\<open>\b(co-?hosted|hosted)\b\<close>\<close>
  "rx_hosting =
     seqs [WordB, Grp (Alt (seqs [Lit ''co'', Opt (Lit ''-''), Lit ''hosted'']) (Lit ''hosted'')),
           WordB]"

definition rx_clause_end :: rx where
  \<comment> \<open>\<^verbatim>\<open>(?:,| from| starting|\.|$)\<close>\<close>
  "rx_clause_end = alts [Lit '','', Lit '' from'', Lit '' starting'', Lit ''.'', Eos]"

definition rx_host_phrase :: rx where
  \<comment> \<open>\<^verbatim>\<open>([A-Z][^.,]*?)\<close>\<close>
  "rx_host_phrase = Grp (Seq (Cls Upper) (LazyStar (Cls (NoneOf ''.,''))))"

definition rx_cohosted_by :: rx where
  \<comment> \<open>\<^verbatim>\<open>co-?hosted\s+by\s+([A-Z][^.,]*?)\s*(?:,| from| starting|\.|$)\<close>\<close>
  "rx_cohosted_by =
     seqs [Lit ''co'', Opt (Lit ''-''), Lit ''hosted'', Plus (Cls Space), Lit ''by'',
           Plus (Cls Space), rx_host_phrase, Star (Cls Space), rx_clause_end]"

definition rx_hosted_by :: rx where
  \<comment> \<open>\<^verbatim>\<open>hosted\s+by\s+([A-Z][^.,]*?)\s*(?:,| from| starting|\.|$)\<close>\<close>
  "rx_hosted_by =
     seqs [Lit ''hosted'', Plus (Cls Space), Lit ''by'',
           Plus (Cls Space), rx_host_phrase, Star (Cls Space), rx_clause_end]"

definition rx_name :: rx where
  \<comment> \<open>\<^verbatim>\<open>([A-Z][A-Za-z]*(?:\s[A-Z][A-Za-z]*)*)\<close>\<close>
  "rx_name =
     Grp (seqs [Cls Upper, Star (Cls Letter),
                Star (seqs [Cls Space, Cls Upper, Star (Cls Letter)])])"

definition rx_roles :: rx where
  \<comment> \<open>\<^verbatim>\<open>(?:captain|coach|skipper)\<close>\<close>
  "rx_roles = alts [Lit ''captain'', Lit ''coach'', Lit ''skipper'']"

definition rx_replaced_by :: rx where
  \<comment> \<open>\<^verbatim>\<open>replaced\s+by\s+([A-Z][A-Za-z]*(?:\s[A-Z][A-Za-z]*)*)\<close>\<close>
  "rx_replaced_by =
     seqs [Lit ''replaced'', Plus (Cls Space), Lit ''by'', Plus (Cls Space), rx_name]"

definition rx_name_before_role :: rx where
  \<comment> \<open>\<^verbatim>\<open>\b(NAME)\b[^.]*\b(?:appointed|named|as)\b[^.]*\b(?:captain|coach|skipper)\b\<close>\<close>
  "rx_name_before_role =
     seqs [WordB, rx_name, WordB, Star (Cls (NoneOf ''.'')), WordB,
           alts [Lit ''appointed'', Lit ''named'', Lit ''as''], WordB,
           Star (Cls (NoneOf ''.'')), WordB, rx_roles, WordB]"

definition rx_role_then_name :: rx where
  \<comment> \<open>\<^verbatim>\<open>\b(?:captain|coach|skipper)\b[^.]*?\b(NAME)\b\<close>\<close>
  "rx_role_then_name =
     seqs [WordB, rx_roles, WordB, LazyStar (Cls (NoneOf ''.'')), WordB, rx_name, WordB]"

definition rx_causal :: rx where
  \<comment> \<open>\<^verbatim>\<open>\b(because|due to|following|as a result)\b\<close>\<close>
  "rx_causal =
     seqs [WordB,
           Grp (alts [Lit ''because'', Lit ''due to'', Lit ''following'', Lit ''as a result'']),
           WordB]"

definition rx_due_to :: rx where
  \<comment> \<open>\<^verbatim>\<open>due to\s+(.*?)(?:\.|$)\<close>\<close>
  "rx_due_to =
     seqs [Lit ''due to'', Plus (Cls Space), Grp (LazyStar (Cls AnyChar)), Alt (Lit ''.'') Eos]"

definition ensure_period :: "string \<Rightarrow> string" where
  \<comment> \<open>\<^verbatim>\<open>s if s.endswith('.') else s + '.'\<close>\<close>
  "ensure_period s = (if endswith s ''.'' then s else s @ ''.'')"

definition group1_stripped :: "string \<Rightarrow> rmatch \<Rightarrow> error + string" where
  \<comment> \<open>\<^verbatim>\<open>m.group(1).strip()\<close>\<close>
  "group1_stripped s m =
     (case group1 s m of None \<Rightarrow> Inl AttributeError | Some g \<Rightarrow> Inr (strip g))"

definition asks_host_and_date :: "string \<Rightarrow> bool" where
  \<comment> \<open>\<^verbatim>\<open>("host" in q) and ("when" in q or "start" in q)\<close>\<close>
  "asks_host_and_date q = (contains q ''host'' \<and> (contains q ''when'' \<or> contains q ''start''))"

definition host_match :: "string \<Rightarrow> rmatch option" where
  "host_match s =
     (case re_search False rx_cohosted_by s of
        None \<Rightarrow> re_search False rx_hosted_by s
      | Some m \<Rightarrow> Some m)"

text \<open>
  The branches of \<^verbatim>\<open>extract_short_answer\<close>. Each returns \<open>Inr (Some ans)\<close> where the
  source returns \<open>ans\<close>, and \<open>Inr None\<close> where the source falls through to what follows.
\<close>

definition host_date_rule :: "string \<Rightarrow> error + string option" where
  "host_date_rule s =
     (if re_search True rx_hosting s \<noteq> None \<and> re_search False MONTH_RE s \<noteq> None
      then Inr (Some (ensure_period s))
      else
        case (case host_match s of None \<Rightarrow> Inr None
              | Some m \<Rightarrow> map_sum id Some (group1_stripped s m)) of
          Inl e \<Rightarrow> Inl e
        | Inr host \<Rightarrow>
            let date = map_option (\<lambda>m. strip (group0 s m)) (re_search False MONTH_RE s);
                has_host = (host \<noteq> None \<and> host \<noteq> Some []);
                has_date = (date \<noteq> None \<and> date \<noteq> Some [])
            in if has_host \<and> has_date
                 then Inr (Some (ensure_period (the host @ '', '' @ the date)))
               else if has_host then Inr (Some (the host))
               else if has_date then Inr (Some (the date))
               else Inr None)"

fun longest :: "string list \<Rightarrow> string" where
  \<comment> \<open>\<^verbatim>\<open>max(xs, key=len)\<close> on a list that is not empty: the first of the longest\<close>
  "longest [] = []"
| "longest [x] = x"
| "longest (x # y # ys) = (let b = longest (y # ys) in if length b > length x then b else x)"

definition person_rule :: "string \<Rightarrow> error + string" where
  "person_rule s =
     (case re_search False rx_replaced_by s of
        Some m \<Rightarrow> group1_stripped s m
      | None \<Rightarrow>
     (case re_search False rx_name_before_role s of
        Some m \<Rightarrow> group1_stripped s m
      | None \<Rightarrow>
     (case re_search False rx_role_then_name s of
        Some m \<Rightarrow> group1_stripped s m
      | None \<Rightarrow>
     (let ents = extract_proper_nouns s
      in if ents \<noteq> []
         then (let multi = filter (\<lambda>e. CHR '' '' \<in> set e) ents
               in Inr (longest (if multi \<noteq> [] then multi else ents)))
         else Inr s))))"

definition reason_rule :: "string \<Rightarrow> error + string" where
  "reason_rule s =
     (if re_search True rx_causal s \<noteq> None then Inr (ensure_period s)
      else case re_search True rx_due_to s of
          Some m \<Rightarrow>
            (case group1_stripped s m of
               Inl e \<Rightarrow> Inl e
             | Inr phrase \<Rightarrow> Inr (ensure_period (''Because '' @ phrase)))
        | None \<Rightarrow> Inr (ensure_period s))"

definition date_rule :: "string \<Rightarrow> string" where
  "date_rule s = (case re_search False MONTH_RE s of Some m \<Rightarrow> group0 s m | None \<Rightarrow> s)"

definition type_cascade :: "string \<Rightarrow> string \<Rightarrow> error + string" where
  "type_cascade s qtype =
     (if qtype = ''PERSON_OR_TEAM'' \<or> qtype = ''ENTITY'' then person_rule s
      else if qtype = ''REASON'' then reason_rule s
      else if qtype = ''DATE'' then Inr (date_rule s)
      else Inr (ensure_period s))"

definition extract_short_answer :: "string \<Rightarrow> string \<Rightarrow> string \<Rightarrow> error + string" where
  "extract_short_answer sentence qtype question =
     (let s = strip sentence; q = lower question
      in case (if asks_host_and_date q then host_date_rule s else Inr None) of
           Inl e \<Rightarrow> Inl e
         | Inr (Some ans) \<Rightarrow> Inr ans
         | Inr None \<Rightarrow> type_cascade s qtype)"

section \<open>The pipeline\<close>

record chunk =
  doc_id :: string
  chunk_id :: nat
  chunk_text :: string

text \<open>
  The embedding model and the vector index are libraries outside the repository. They are
  parameters of the model: \<open>encode\<close> is \<^verbatim>\<open>embedder.encode(texts, normalize_embeddings=True)\<close>
  read as an array, \<open>vdim\<close> the length of a row of that array, \<open>index_new\<close> is
  \<^verbatim>\<open>faiss.IndexFlatIP(dim)\<close>, \<open>index_add\<close> is \<^verbatim>\<open>index.add(embs)\<close>, which changes the index
  in place and may raise, \<open>index_search\<close> is \<^verbatim>\<open>index.search(q_emb, top_k)\<close> giving the rows
  \<^verbatim>\<open>scores[0]\<close> and \<^verbatim>\<open>ids[0]\<close>, \<open>dot\<close> is the inner product, and \<open>fmt_score\<close> prints a
  score with three decimals. Scores are real numbers.
\<close>

record ('v, 'ix) env =
  encode :: "string list \<Rightarrow> string + 'v list"
  vdim :: "'v \<Rightarrow> nat"
  index_new :: "nat \<Rightarrow> string + 'ix"
  index_add :: "'ix \<Rightarrow> 'v list \<Rightarrow> 'ix \<times> string option"
  index_search :: "'ix \<Rightarrow> 'v list \<Rightarrow> int \<Rightarrow> string + (real list \<times> int list)"
  dot :: "'v \<Rightarrow> 'v \<Rightarrow> real"
  fmt_score :: "real \<Rightarrow> string"

text \<open>The fields of a \<^verbatim>\<open>NaiveRAG\<close> object; \<open>None\<close> is Python's \<^verbatim>\<open>None\<close>.\<close>

record 'ix rag =
  index :: "'ix option"
  chunks :: "chunk list"
  dim :: "nat option"

definition init_rag :: "'ix rag" where
  \<comment> \<open>the fields after \<^verbatim>\<open>__init__\<close>\<close>
  "init_rag = \<lparr>index = None, chunks = [], dim = None\<rparr>"

definition py_get :: "'a list \<Rightarrow> int \<Rightarrow> error + 'a" where
  \<comment> \<open>\<^verbatim>\<open>xs[i]\<close>: a negative index counts from the end\<close>
  "py_get xs i =
     (if 0 \<le> i \<and> i < int (length xs) then Inr (xs ! nat i)
      else if i < 0 \<and> - int (length xs) \<le> i then Inr (xs ! nat (int (length xs) + i))
      else Inl IndexError)"

definition doc_chunks :: "string \<Rightarrow> string list \<Rightarrow> chunk list" where
  \<comment> \<open>\<^verbatim>\<open>for i, chunk_text in enumerate(pieces)\<close>\<close>
  "doc_chunks d pieces =
     map (\<lambda>(i, t). \<lparr>doc_id = d, chunk_id = i, chunk_text = t\<rparr>) (enumerate 0 pieces)"

fun collect_chunks :: "(string \<times> string) list \<Rightarrow> int \<Rightarrow> int \<Rightarrow> chunk list" where
  \<comment> \<open>\<^verbatim>\<open>for doc_id, text in docs.items()\<close>; the documents in the order of the dictionary\<close>
  "collect_chunks [] chunk_size_words overlap_words = []"
| "collect_chunks ((d, t) # docs) chunk_size_words overlap_words =
     doc_chunks d (sliding_window_chunk t chunk_size_words overlap_words) @
     collect_chunks docs chunk_size_words overlap_words"

text \<open>
  \<^verbatim>\<open>build_index\<close> returns its outcome and the fields of the object as the call leaves
  them, also when it raises.
\<close>

definition build_index ::
  "('v, 'ix) env \<Rightarrow> (string \<times> string) list \<Rightarrow> int \<Rightarrow> int \<Rightarrow> 'ix rag
     \<Rightarrow> (error + unit) \<times> 'ix rag" where
  "build_index e docs chunk_size_words overlap_words st =
     (let all_chunks = collect_chunks docs chunk_size_words overlap_words
      in if all_chunks = [] then (Inl NoChunks, st)
         else
           let st1 = st\<lparr>chunks := all_chunks\<rparr>;
               texts = map chunk_text (chunks st1)
           in case encode e texts of
                Inl x \<Rightarrow> (Inl (External x), st1)
              | Inr embs \<Rightarrow>
                  (case embs of
                     [] \<Rightarrow> (Inl IndexError, st1)
                   | v # vs \<Rightarrow>
                       let st2 = st1\<lparr>dim := Some (vdim e v)\<rparr>
                       in (case index_new e (vdim e v) of
                             Inl x \<Rightarrow> (Inl (External x), st2)
                           | Inr ix \<Rightarrow>
                               (case index_add e ix embs of
                                  (ix', Some x) \<Rightarrow> (Inl (External x), st2\<lparr>index := Some ix'\<rparr>)
                                | (ix', None) \<Rightarrow> (Inr (), st2\<lparr>index := Some ix'\<rparr>)))))"

fun retrieve_loop :: "chunk list \<Rightarrow> (int \<times> real) list \<Rightarrow> error + (chunk \<times> real) list" where
  \<comment> \<open>\<^verbatim>\<open>for idx, score in zip(ids[0], scores[0])\<close>\<close>
  "retrieve_loop cs [] = Inr []"
| "retrieve_loop cs ((idx, score) # rest) =
     (if idx = - 1 then retrieve_loop cs rest
      else case py_get cs idx of
             Inl err \<Rightarrow> Inl err
           | Inr c \<Rightarrow>
               (case retrieve_loop cs rest of
                  Inl err \<Rightarrow> Inl err
                | Inr results \<Rightarrow> Inr ((c, score) # results)))"

definition retrieve ::
  "('v, 'ix) env \<Rightarrow> 'ix rag \<Rightarrow> string \<Rightarrow> int \<Rightarrow> error + (chunk \<times> real) list" where
  "retrieve e st query top_k =
     (case index st of
        None \<Rightarrow> Inl IndexNotBuilt
      | Some ix \<Rightarrow>
          (case encode e [query] of
             Inl x \<Rightarrow> Inl (External x)
           | Inr q_emb \<Rightarrow>
               (case index_search e ix q_emb top_k of
                  Inl x \<Rightarrow> Inl (External x)
                | Inr (scores0, ids0) \<Rightarrow> retrieve_loop (chunks st) (zip ids0 scores0))))"

definition is_linebreak :: "char \<Rightarrow> bool" where
  \<comment> \<open>the line boundaries of \<^verbatim>\<open>str.splitlines\<close>: LF, VT, FF, CR, FS, GS, RS and NEL (133)\<close>
  "is_linebreak c =
     (let n = of_char c :: nat in (10 \<le> n \<and> n \<le> 13) \<or> (28 \<le> n \<and> n \<le> 30) \<or> n = 133)"

fun splitlines_acc :: "string \<Rightarrow> string \<Rightarrow> string list" where
  "splitlines_acc w [] = (if w = [] then [] else [w])"
| "splitlines_acc w [c] = (if is_linebreak c then [w] else [w @ [c]])"
| "splitlines_acc w (c # d # cs) =
     (if c = CHR 0x0D \<and> d = CHR 0x0A then w # splitlines_acc [] cs
      else if is_linebreak c then w # splitlines_acc [] (d # cs)
      else splitlines_acc (w @ [c]) (d # cs))"

definition splitlines :: "string \<Rightarrow> string list" where
  \<comment> \<open>\<^verbatim>\<open>text.splitlines()\<close>\<close>
  "splitlines text = splitlines_acc [] text"

definition rx_sentence_gap :: rx where
  \<comment> \<open>\<^verbatim>\<open>(?<=[.!?])\s+\<close>\<close>
  "rx_sentence_gap = Seq (Behind (OneOf ''.!?'')) (Plus (Cls Space))"

fun line_sentences :: "string list \<Rightarrow> string list" where
  \<comment> \<open>\<^verbatim>\<open>for line in raw_lines\<close>\<close>
  "line_sentences [] = []"
| "line_sentences (line # rest) =
     (let l = strip line
      in if l = [] then line_sentences rest
         else map strip (filter (\<lambda>p. strip p \<noteq> []) (re_split False rx_sentence_gap l)) @
              line_sentences rest)"

definition split_sentences :: "string \<Rightarrow> string list" where
  "split_sentences text =
     (let final_sentences = line_sentences (splitlines text)
      in if final_sentences = [] then [strip text] else final_sentences)"

fun argmax_from :: "real list \<Rightarrow> nat \<Rightarrow> nat \<Rightarrow> real \<Rightarrow> nat" where
  \<comment> \<open>the index of the first greatest element, \<open>best\<close> at index \<open>b\<close> being the greatest so far\<close>
  "argmax_from [] i b best = b"
| "argmax_from (x # xs) i b best =
     (if best < x then argmax_from xs (Suc i) i x else argmax_from xs (Suc i) b best)"

definition argmax :: "real list \<Rightarrow> error + nat" where
  \<comment> \<open>\<^verbatim>\<open>int(np.argmax(sims))\<close>\<close>
  "argmax sims = (case sims of [] \<Rightarrow> Inl EmptyArgmax | x # xs \<Rightarrow> Inr (argmax_from xs 1 0 x))"

definition best_sentence :: "('v, 'ix) env \<Rightarrow> string \<Rightarrow> string \<Rightarrow> error + string" where
  "best_sentence e query text =
     (let sentences = split_sentences text
      in if sentences = [] then Inr (strip text)
         else
           case encode e [query] of
             Inl x \<Rightarrow> Inl (External x)
           | Inr q_emb \<Rightarrow>
               (case encode e sentences of
                  Inl x \<Rightarrow> Inl (External x)
                | Inr s_embs \<Rightarrow>
                    (case q_emb of
                       [] \<Rightarrow> Inl IndexError
                     | q # qs \<Rightarrow>
                         (case argmax (map (\<lambda>v. dot e v q) s_embs) of
                            Inl err \<Rightarrow> Inl err
                          | Inr best_idx \<Rightarrow> py_get sentences (int best_idx)))))"

fun first_above :: "(chunk \<times> real) list \<Rightarrow> real \<Rightarrow> (chunk \<times> real) option" where
  \<comment> \<open>\<^verbatim>\<open>for c, s in retrieved: if s >= min_score: chosen = (c, s); break\<close>\<close>
  "first_above [] min_score = None"
| "first_above ((c, s) # rest) min_score =
     (if s \<ge> min_score then Some (c, s) else first_above rest min_score)"

definition chosen_pair :: "(chunk \<times> real) list \<Rightarrow> real \<Rightarrow> error + (chunk \<times> real)" where
  \<comment> \<open>the pair \<^verbatim>\<open>chosen\<close>, with \<^verbatim>\<open>retrieved[0]\<close> when the loop has chosen none\<close>
  "chosen_pair retrieved min_score =
     (case first_above retrieved min_score of
        Some p \<Rightarrow> Inr p
      | None \<Rightarrow> py_get retrieved 0)"

function str_nat :: "nat \<Rightarrow> string" where
  \<comment> \<open>a number in decimal\<close>
  "str_nat n =
     (if n < 10 then [char_of (48 + n)] else str_nat (n div 10) @ [char_of (48 + n mod 10)])"
  by pat_completeness auto
termination
  by (relation "measure id") auto

definition context_entry :: "('v, 'ix) env \<Rightarrow> chunk \<times> real \<Rightarrow> string" where
  \<comment> \<open>\<^verbatim>\<open>f"[{c.doc_id}#{c.chunk_id} | score={s:.3f}]\n{c.text}"\<close>\<close>
  "context_entry e p =
     ''['' @ doc_id (fst p) @ ''#'' @ str_nat (chunk_id (fst p)) @ '' | score='' @
     fmt_score e (snd p) @ '']'' @ [CHR 0x0A] @ chunk_text (fst p)"

definition answer_from ::
  "('v, 'ix) env \<Rightarrow> string \<Rightarrow> (chunk \<times> real) list \<Rightarrow> chunk \<times> real
     \<Rightarrow> error + (string \<times> string)" where
  \<comment> \<open>what \<^verbatim>\<open>generate_extractive_answer\<close> does once \<^verbatim>\<open>chosen\<close> is fixed\<close>
  "answer_from e query retrieved chosen =
     (case best_sentence e query (chunk_text (fst chosen)) of
        Inl err \<Rightarrow> Inl err
      | Inr best \<Rightarrow>
          (case extract_short_answer best (detect_question_type query) query of
             Inl err \<Rightarrow> Inl err
           | Inr answer \<Rightarrow>
               Inr (answer,
                    ''Retrieved Context:'' @ [CHR 0x0A] @
                    join [CHR 0x0A, CHR 0x0A] (map (context_entry e) retrieved) @
                    [CHR 0x0A, CHR 0x0A] @ ''Chosen sentence: '' @ best)))"

definition generate_extractive_answer ::
  "('v, 'ix) env \<Rightarrow> string \<Rightarrow> (chunk \<times> real) list \<Rightarrow> real
     \<Rightarrow> error + (string \<times> string)" where
  "generate_extractive_answer e query retrieved min_score =
     (if retrieved = [] then Inr ('''', ''Retrieved Context: (none)'')
      else case chosen_pair retrieved min_score of
             Inl err \<Rightarrow> Inl err
           | Inr chosen \<Rightarrow> answer_from e query retrieved chosen)"

section \<open>Example inputs\<close>

definition demo_text :: string where
  \<comment> \<open>seventy words\<close>
  "demo_text = concat (replicate 70 ''ab '')"

text \<open>
  An embedding model and a vector index for the examples. The embedding of a text is its
  length, and the model fails on a text longer than \<open>limit\<close>. The index keeps the vectors
  it was given, and a search ranks them by inner product with the query, filling the slots
  that are left with the id \<open>-1\<close>.
\<close>

definition demo_hits :: "nat list \<Rightarrow> nat \<Rightarrow> nat \<Rightarrow> (nat \<times> nat) list" where
  "demo_hits ix q k =
     take k (sort_key (\<lambda>(p, i). - int p) (zip (map (\<lambda>v. v * q) ix) [0 ..< length ix]))"

definition demo_search :: "nat list \<Rightarrow> nat list \<Rightarrow> int \<Rightarrow> string + (real list \<times> int list)" where
  "demo_search ix q_emb k =
     (case q_emb of
        [] \<Rightarrow> Inl ''no query''
      | q # qs \<Rightarrow>
          if k \<le> 0 then Inl ''k must be positive''
          else
            let hits = demo_hits ix q (nat k);
                pad = nat k - length hits
            in Inr (map (\<lambda>(p, i). real p) hits @ replicate pad 0,
                    map (\<lambda>(p, i). int i) hits @ replicate pad (- 1)))"

definition demo_env :: "nat \<Rightarrow> (nat, nat list) env" where
  "demo_env limit =
     \<lparr>encode = (\<lambda>texts. if \<exists>t\<in>set texts. limit < length t then Inl ''out of memory''
                        else Inr (map length texts)),
      vdim = (\<lambda>v. 1),
      index_new = (\<lambda>d. Inr []),
      index_add = (\<lambda>ix vs. (ix @ vs, None)),
      index_search = demo_search,
      dot = (\<lambda>a b. real (a * b)),
      fmt_score = (\<lambda>s. ''0.000'')\<rparr>"

definition demo_docs :: "(string \<times> string) list" where
  "demo_docs = [(''a.txt'', demo_text)]"

section \<open>Notions of the specification\<close>

definition leading_word :: "string \<Rightarrow> string" where
  \<comment> \<open>the leading word of the trimmed, lower-cased question: its characters up to the first
      white space\<close>
  "leading_word question = takeWhile (\<lambda>c. \<not> is_space c) (strip (lower question))"

section \<open>More example inputs\<close>

definition demo_chunk :: "nat \<Rightarrow> string \<Rightarrow> chunk" where
  "demo_chunk i t = \<lparr>doc_id = ''a.txt'', chunk_id = i, chunk_text = t\<rparr>"

definition demo_retrieved :: "(chunk \<times> real) list" where
  "demo_retrieved =
     [(demo_chunk 0 ''Group C plays in Colombo.'', 0.2),
      (demo_chunk 1 ''The tournament starts February 7, 2026.'', 0.5),
      (demo_chunk 2 ''Scotland replaced Bangladesh.'', 0.9)]"

definition demo_built :: "nat list rag" where
  \<comment> \<open>the object after a build that succeeds: two chunks of forty words\<close>
  "demo_built = snd (build_index (demo_env 200) demo_docs 40 10 init_rag)"

definition demo_failed :: "nat list rag" where
  \<comment> \<open>the object after a rebuild whose only chunk is too long for the embedding model\<close>
  "demo_failed = snd (build_index (demo_env 200) demo_docs 70 0 demo_built)"

section \<open>Strings matched by a pattern\<close>

definition ends :: "bool \<Rightarrow> string \<Rightarrow> rx \<Rightarrow> nat \<Rightarrow> nat set" where
  \<comment> \<open>the positions at which a match that starts at \<open>i\<close> can end\<close>
  "ends ic s r i = fst ` set (ms ic s r i)"

inductive_set star :: "string set \<Rightarrow> string set" for L :: "string set" where
  star_empty: "[] \<in> star L"
| star_step: "u \<in> L \<Longrightarrow> v \<in> star L \<Longrightarrow> u @ v \<in> star L"

fun plain :: "rx \<Rightarrow> bool" where
  \<comment> \<open>a pattern that looks at nothing but the text it matches\<close>
  "plain (Lit l) = True"
| "plain (Cls k) = True"
| "plain (Seq a b) = (plain a \<and> plain b)"
| "plain (Alt a b) = (plain a \<and> plain b)"
| "plain (Opt a) = plain a"
| "plain (Star a) = plain a"
| "plain (Plus a) = plain a"
| "plain (LazyStar a) = plain a"
| "plain (Grp a) = plain a"
| "plain WordB = False"
| "plain Eos = False"
| "plain (Behind k) = False"

fun lang :: "rx \<Rightarrow> string set" where
  \<comment> \<open>the strings that a plain, case-sensitive pattern matches as a whole\<close>
  "lang (Lit l) = {l}"
| "lang (Cls k) = {[c] | c. cls_match k c}"
| "lang (Seq a b) = {u @ v | u v. u \<in> lang a \<and> v \<in> lang b}"
| "lang (Alt a b) = lang a \<union> lang b"
| "lang (Opt a) = insert [] (lang a)"
| "lang (Star a) = star (lang a)"
| "lang (Plus a) = {u @ v | u v. u \<in> lang a \<and> v \<in> star (lang a)}"
| "lang (LazyStar a) = star (lang a)"
| "lang (Grp a) = lang a"
| "lang WordB = {[]}"
| "lang Eos = {[]}"
| "lang (Behind k) = {[]}"

fun no_grp :: "rx \<Rightarrow> bool" where
  \<comment> \<open>a pattern without a capturing group\<close>
  "no_grp (Seq a b) = (no_grp a \<and> no_grp b)"
| "no_grp (Alt a b) = (no_grp a \<and> no_grp b)"
| "no_grp (Opt a) = no_grp a"
| "no_grp (Star a) = no_grp a"
| "no_grp (Plus a) = no_grp a"
| "no_grp (LazyStar a) = no_grp a"
| "no_grp (Grp a) = False"
| "no_grp r = True"

section \<open>Notions of the claims about the extractor\<close>

definition hosting_verb_at :: "string \<Rightarrow> nat \<Rightarrow> bool" where
  \<comment> \<open>at position \<open>i\<close> stands a hosting verb, ``hosted'' or ``co-hosted'' with or without
      the hyphen, in any case of the letters, between two word boundaries\<close>
  "hosting_verb_at s i =
     (word_boundary s i \<and>
      ((lit_at True s ''hosted'' i \<and> word_boundary s (i + 6)) \<or>
       (lit_at True s ''cohosted'' i \<and> word_boundary s (i + 8)) \<or>
       (lit_at True s ''co-hosted'' i \<and> word_boundary s (i + 9))))"

definition host_phrase :: "string \<Rightarrow> string option" where
  \<comment> \<open>the host phrase that the patterns for ``co-hosted by'' and ``hosted by'' capture,
      trimmed\<close>
  "host_phrase s =
     (case host_match s of None \<Rightarrow> None | Some m \<Rightarrow> map_option strip (group1 s m))"

definition first_date :: "string \<Rightarrow> string option" where
  \<comment> \<open>the date that a search for the date pattern finds\<close>
  "first_date s = map_option (group0 s) (re_search False MONTH_RE s)"

section \<open>Properties of the chunker\<close>

declare chunk_loop.simps [simp del]

lemma window_take_drop:
  "0 < sz \<Longrightarrow> window ws sz start = take (nat sz) (drop start ws)"
  by (auto simp: window_def window_end_def py_slice_def slice_index_def Let_def min_def
      intro!: arg_cong2[where f=take] simp: nat_add_distrib)


lemma split_acc_no_space:
  "\<forall>c\<in>set u. \<not> is_space c \<Longrightarrow> split_acc w (u @ r) = split_acc (w @ u) r"
  by (induction u arbitrary: w) simp_all

lemma split_acc_words:
  "\<forall>c\<in>set w. \<not> is_space c \<Longrightarrow> x \<in> set (split_acc w s) \<Longrightarrow>
   x \<noteq> [] \<and> (\<forall>c\<in>set x. \<not> is_space c)"
proof (induction s arbitrary: w)
  case Nil
  then show ?case by (cases "w = []") auto
next
  case (Cons c s)
  show ?case
  proof (cases "is_space c")
    case True
    show ?thesis
    proof (cases "w = []")
      case True
      with \<open>is_space c\<close> Cons.prems have "x \<in> set (split_acc [] s)" by simp
      then show ?thesis using Cons.IH[of "[]"] by simp
    next
      case False
      with \<open>is_space c\<close> Cons.prems have "x = w \<or> x \<in> set (split_acc [] s)" by simp
      then show ?thesis using Cons.IH[of "[]"] Cons.prems(1) False by auto
    qed
  next
    case False
    with Cons.prems have "x \<in> set (split_acc (w @ [c]) s)" by simp
    moreover have "\<forall>d\<in>set (w @ [c]). \<not> is_space d" using False Cons.prems(1) by simp
    ultimately show ?thesis using Cons.IH[of "w @ [c]"] by blast
  qed
qed

lemma py_split_words:
  "x \<in> set (py_split t) \<Longrightarrow> x \<noteq> [] \<and> (\<forall>c\<in>set x. \<not> is_space c)"
  unfolding py_split_def using split_acc_words[of "[]" x t] by simp

lemma is_space_blank: "is_space CHR '' ''"
  by (simp add: is_space_def)

lemma split_join:
  "\<forall>w\<in>set ws. w \<noteq> [] \<and> (\<forall>c\<in>set w. \<not> is_space c) \<Longrightarrow> split_acc [] (join '' '' ws) = ws"
proof (induction ws)
  case Nil
  then show ?case by simp
next
  case (Cons w ws)
  have w: "w \<noteq> []" "\<forall>c\<in>set w. \<not> is_space c" using Cons.prems by simp_all
  have pre: "\<And>r. split_acc [] (w @ r) = split_acc w r"
    using split_acc_no_space[OF w(2), of "[]"] by simp
  show ?case
  proof (cases ws)
    case Nil
    have "split_acc [] (w @ []) = split_acc w []" by (rule pre)
    then show ?thesis using Nil w by simp
  next
    case (Cons v vs)
    have "split_acc [] (join '' '' (w # v # vs)) = split_acc w (CHR '' '' # join '' '' (v # vs))"
      using pre[of "CHR '' '' # join '' '' (v # vs)"] by simp
    also have "\<dots> = w # split_acc [] (join '' '' (v # vs))"
      using w by (simp add: is_space_blank)
    also have "split_acc [] (join '' '' (v # vs)) = v # vs"
      using Cons.IH Cons.prems Cons by simp
    finally show ?thesis using Cons by simp
  qed
qed

lemma py_split_join_window:
  assumes "0 < sz"
  shows "py_split (join '' '' (window (py_split t) sz start)) = window (py_split t) sz start"
proof -
  have "set (window (py_split t) sz start) \<subseteq> set (py_split t)"
    using assms set_take_subset[of "nat sz" "drop start (py_split t)"] set_drop_subset[of start "py_split t"]
    by (simp add: window_take_drop)
  then show ?thesis
    unfolding py_split_def[of "join '' '' (window (py_split t) sz start)"]
    using py_split_words[of _ t] by (intro split_join) blast
qed

lemma chunk_step_eq: "ov < sz \<Longrightarrow> chunk_step sz ov = nat (sz - ov)"
  by (simp add: chunk_step_def)

lemma chunk_loop_done:
  "length ws \<le> start \<or> int (length (window ws sz start)) < chunk_floor sz \<Longrightarrow>
   chunk_loop ws sz ov start = []"
  by (subst chunk_loop.simps) auto

lemma chunk_loop_last:
  "start < length ws \<Longrightarrow> \<not> int (length (window ws sz start)) < chunk_floor sz \<Longrightarrow>
   int (length ws) \<le> window_end ws sz start \<Longrightarrow>
   chunk_loop ws sz ov start = [join '' '' (window ws sz start)]"
  by (subst chunk_loop.simps) simp

lemma chunk_loop_more:
  "start < length ws \<Longrightarrow> \<not> int (length (window ws sz start)) < chunk_floor sz \<Longrightarrow>
   \<not> int (length ws) \<le> window_end ws sz start \<Longrightarrow>
   chunk_loop ws sz ov start =
     join '' '' (window ws sz start) # chunk_loop ws sz ov (start + chunk_step sz ov)"
  by (subst chunk_loop.simps) simp

lemma chunk_loop_nonempty:
  assumes "chunk_loop ws sz ov start \<noteq> []"
  shows "start < length ws" and "\<not> int (length (window ws sz start)) < chunk_floor sz"
proof -
  show "start < length ws"
  proof (rule ccontr)
    assume "\<not> start < length ws"
    then have "chunk_loop ws sz ov start = []" by (simp add: chunk_loop_done)
    then show False using assms by simp
  qed
  show "\<not> int (length (window ws sz start)) < chunk_floor sz"
  proof
    assume "int (length (window ws sz start)) < chunk_floor sz"
    then have "chunk_loop ws sz ov start = []" by (simp add: chunk_loop_done)
    then show False using assms by simp
  qed
qed

lemma chunk_loop_nth:
  "k < length (chunk_loop ws sz ov start) \<Longrightarrow>
   chunk_loop ws sz ov start ! k = join '' '' (window ws sz (start + k * chunk_step sz ov)) \<and>
   chunk_floor sz \<le> int (length (window ws sz (start + k * chunk_step sz ov))) \<and>
   start + k * chunk_step sz ov < length ws"
proof (induction ws sz ov start arbitrary: k rule: chunk_loop.induct)
  case (1 ws sz ov start)
  have "chunk_loop ws sz ov start \<noteq> []" using "1.prems" by auto
  then have a: "start < length ws" and b: "\<not> int (length (window ws sz start)) < chunk_floor sz"
    by (simp_all add: chunk_loop_nonempty)
  show ?case
  proof (cases "int (length ws) \<le> window_end ws sz start")
    case True
    then have "k = 0" using "1.prems" chunk_loop_last[OF a b True, of ov] by simp
    then show ?thesis using a b chunk_loop_last[OF a b True, of ov] by simp
  next
    case c: False
    note e = chunk_loop_more[OF a b c, of ov]
    show ?thesis
    proof (cases k)
      case 0
      then show ?thesis using a b e by simp
    next
      case (Suc j)
      then have d: "j < length (chunk_loop ws sz ov (start + chunk_step sz ov))"
        using "1.prems" e by simp
      show ?thesis using "1.IH"[OF _ b c d] a e Suc by (simp add: add.assoc)
    qed
  qed
qed

lemma chunk_loop_not_last:
  "Suc k < length (chunk_loop ws sz ov start) \<Longrightarrow>
   window_end ws sz (start + k * chunk_step sz ov) < int (length ws)"
proof (induction ws sz ov start arbitrary: k rule: chunk_loop.induct)
  case (1 ws sz ov start)
  have "chunk_loop ws sz ov start \<noteq> []" using "1.prems" by auto
  then have a: "start < length ws" and b: "\<not> int (length (window ws sz start)) < chunk_floor sz"
    by (simp_all add: chunk_loop_nonempty)
  have c: "\<not> int (length ws) \<le> window_end ws sz start"
  proof
    assume "int (length ws) \<le> window_end ws sz start"
    then have "length (chunk_loop ws sz ov start) = 1" by (simp add: chunk_loop_last[OF a b])
    then show False using "1.prems" by simp
  qed
  note e = chunk_loop_more[OF a b c, of ov]
  show ?case
  proof (cases k)
    case 0
    then show ?thesis using c by simp
  next
    case (Suc j)
    then have d: "Suc j < length (chunk_loop ws sz ov (start + chunk_step sz ov))"
      using "1.prems" e by simp
    show ?thesis using "1.IH"[OF _ b c d] a Suc by (simp add: add.assoc)
  qed
qed

lemma chunk_loop_stop:
  assumes "0 \<le> ov" "ov < sz"
  shows "start < length ws \<Longrightarrow>
    (chunk_loop ws sz ov start \<noteq> [] \<and>
       int (length ws) \<le> int (start + (length (chunk_loop ws sz ov start) - 1) * chunk_step sz ov) + sz) \<or>
    (start + length (chunk_loop ws sz ov start) * chunk_step sz ov < length ws \<and>
       int (length (window ws sz (start + length (chunk_loop ws sz ov start) * chunk_step sz ov)))
         < chunk_floor sz)"
  using assms
proof (induction ws sz ov start rule: chunk_loop.induct)
  case (1 ws sz ov start)
  note a = "1.prems"(1)
  show ?case
  proof (cases "int (length (window ws sz start)) < chunk_floor sz")
    case True
    then have "chunk_loop ws sz ov start = []" by (simp add: chunk_loop_done)
    then show ?thesis using True a by simp
  next
    case b: False
    show ?thesis
    proof (cases "int (length ws) \<le> window_end ws sz start")
      case True
      then show ?thesis using chunk_loop_last[OF a b True, of ov] by (simp add: window_end_def)
    next
      case c: False
      let ?st = "start + chunk_step sz ov"
      let ?rest = "chunk_loop ws sz ov ?st"
      note e = chunk_loop_more[OF a b c, of ov]
      have g: "int (chunk_step sz ov) = sz - ov"
        using "1.prems" by (simp add: chunk_step_def)
      have "int start + sz < int (length ws)" using c by (simp add: window_end_def)
      then have "int ?st < int (length ws)" using g "1.prems" by linarith
      then have f: "?st < length ws" by linarith
      from "1.IH"[OF _ b c f "1.prems"(2,3)] a have
        "(?rest \<noteq> [] \<and>
           int (length ws) \<le> int (?st + (length ?rest - 1) * chunk_step sz ov) + sz) \<or>
         (?st + length ?rest * chunk_step sz ov < length ws \<and>
           int (length (window ws sz (?st + length ?rest * chunk_step sz ov))) < chunk_floor sz)"
        by simp
      then show ?thesis
      proof
        assume h: "?rest \<noteq> [] \<and>
           int (length ws) \<le> int (?st + (length ?rest - 1) * chunk_step sz ov) + sz"
        then obtain n where n: "length ?rest = Suc n"
          by (cases ?rest) auto
        show ?thesis using h n e by (simp add: add.assoc)
      next
        assume h: "?st + length ?rest * chunk_step sz ov < length ws \<and>
           int (length (window ws sz (?st + length ?rest * chunk_step sz ov))) < chunk_floor sz"
        show ?thesis using h e by (simp add: add.assoc)
      qed
    qed
  qed
qed


text \<open>
  C3: for \<open>size_words > 0\<close> and \<open>0 \<le> overlap_words < size_words\<close>, a text without words
  gives no chunk; otherwise chunk \<open>k\<close> holds exactly the words from offset \<open>k * step\<close> on, at
  most \<open>size_words\<close> of them, with \<open>step = size_words - overlap_words\<close>, so the start
  offsets grow by exactly \<open>step\<close>; every chunk has at most \<open>size_words\<close> and at least
  \<open>max(30, size_words // 4)\<close> words; no chunk but the last reaches the end of the words;
  and the scan stops either after a chunk that reaches the end or at the first window that
  is shorter than the floor.
\<close>

theorem chunker_window_discipline:
  assumes "0 < size_words" and "0 \<le> overlap_words" and "overlap_words < size_words"
  shows "let words = py_split text;
             step = nat (size_words - overlap_words);
             cs = sliding_window_chunk text size_words overlap_words
         in (words = [] \<longrightarrow> cs = []) \<and>
            (\<forall>k<length cs.
               py_split (cs ! k) = take (nat size_words) (drop (k * step) words) \<and>
               k * step < length words \<and>
               int (length (py_split (cs ! k))) \<le> size_words \<and>
               max 30 (size_words div 4) \<le> int (length (py_split (cs ! k)))) \<and>
            (\<forall>k. Suc k < length cs \<longrightarrow> int (k * step) + size_words < int (length words)) \<and>
            (words \<noteq> [] \<longrightarrow>
               (cs \<noteq> [] \<and> int (length words) \<le> int ((length cs - 1) * step) + size_words) \<or>
               (length cs * step < length words \<and>
                int (length (take (nat size_words) (drop (length cs * step) words)))
                  < max 30 (size_words div 4)))"
proof -
  define words where "words = py_split text"
  define step where "step = nat (size_words - overlap_words)"
  define cs where "cs = sliding_window_chunk text size_words overlap_words"
  have st: "chunk_step size_words overlap_words = step"
    using assms by (simp add: chunk_step_def step_def)
  have w: "\<And>start. window words size_words start = take (nat size_words) (drop start words)"
    using assms(1) by (rule window_take_drop)
  have empty: "words = [] \<Longrightarrow> cs = []"
    by (simp add: cs_def sliding_window_chunk_def words_def)
  have loop: "words \<noteq> [] \<Longrightarrow> cs = chunk_loop words size_words overlap_words 0"
    by (simp add: cs_def sliding_window_chunk_def words_def Let_def)
  have nth: "py_split (cs ! k) = take (nat size_words) (drop (k * step) words) \<and>
             k * step < length words \<and>
             int (length (py_split (cs ! k))) \<le> size_words \<and>
             chunk_floor size_words \<le> int (length (py_split (cs ! k)))" if k: "k < length cs" for k
  proof -
    have ne: "words \<noteq> []" using k empty by auto
    have k': "k < length (chunk_loop words size_words overlap_words 0)" using k loop[OF ne] by simp
    from chunk_loop_nth[OF k'] have
      a: "cs ! k = join '' '' (window words size_words (k * step))" and
      b: "chunk_floor size_words \<le> int (length (window words size_words (k * step)))" and
      c: "k * step < length words"
      using loop[OF ne] st by simp_all
    have d: "py_split (cs ! k) = window words size_words (k * step)"
      unfolding a words_def using assms(1) by (rule py_split_join_window)
    have e: "int (length (window words size_words (k * step))) \<le> size_words"
      using assms(1) by (simp add: w)
    show ?thesis using b c d e by (simp add: w)
  qed
  have not_last: "int (k * step) + size_words < int (length words)" if k: "Suc k < length cs" for k
  proof -
    have ne: "words \<noteq> []" using k empty by auto
    have "Suc k < length (chunk_loop words size_words overlap_words 0)" using k loop[OF ne] by simp
    from chunk_loop_not_last[OF this] show ?thesis using st by (simp add: window_end_def)
  qed
  have stop: "(cs \<noteq> [] \<and> int (length words) \<le> int ((length cs - 1) * step) + size_words) \<or>
              (length cs * step < length words \<and>
               int (length (take (nat size_words) (drop (length cs * step) words)))
                 < chunk_floor size_words)" if ne: "words \<noteq> []"
  proof -
    have "0 < length words" using ne by simp
    from chunk_loop_stop[OF assms(2,3) this] show ?thesis
      using loop[OF ne] st by (simp add: w)
  qed
  show ?thesis
    unfolding Let_def chunk_floor_def[symmetric] words_def[symmetric] step_def[symmetric]
      cs_def[symmetric]
    using empty nth not_last stop by blast
qed

theorem chunker_window_discipline_witness:
  "(0::int) < 40 \<and> (0::int) \<le> 10 \<and> (10::int) < 40 \<and>
   length (sliding_window_chunk demo_text 40 10) = 2 \<and>
   py_split (sliding_window_chunk demo_text 40 10 ! 1) = take 40 (drop 30 (py_split demo_text))"
proof -
  have n: "length (sliding_window_chunk demo_text 40 10) = 2" by code_simp
  have "\<forall>k<length (sliding_window_chunk demo_text 40 10).
          py_split (sliding_window_chunk demo_text 40 10 ! k) =
          take (nat 40) (drop (k * nat (40 - 10)) (py_split demo_text))"
    using chunker_window_discipline[of 40 10 demo_text] by (simp add: Let_def)
  then show ?thesis using n by simp
qed

lemma window_length_le:
  "0 < sz \<Longrightarrow> int (length (window ws sz start)) \<le> sz"
  by (simp add: window_take_drop)

lemma chunk_loop_small:
  assumes "0 < sz" "sz < 30"
  shows "chunk_loop ws sz ov start = []"
proof -
  have "int (length (window ws sz start)) < chunk_floor sz"
    using window_length_le[OF assms(1), of ws start] assms(2) by (simp add: chunk_floor_def)
  then show ?thesis by (simp add: chunk_loop_done)
qed

lemma sliding_window_chunk_small:
  "0 < sz \<Longrightarrow> sz < 30 \<Longrightarrow> sliding_window_chunk t sz ov = []"
  by (simp add: sliding_window_chunk_def Let_def chunk_loop_small)

lemma collect_chunks_small:
  "0 < sz \<Longrightarrow> sz < 30 \<Longrightarrow> collect_chunks docs sz ov = []"
  by (induction docs sz ov rule: collect_chunks.induct)
     (simp_all add: sliding_window_chunk_small doc_chunks_def)

text \<open>
  C10: for \<open>0 < chunk_size_words < 30\<close> and any overlap, the chunker returns the empty list
  for every text, since no window can reach the floor of 30 words; \<^verbatim>\<open>build_index\<close> then
  raises its configuration error for every corpus, and leaves the object as it was.
\<close>

theorem small_chunk_size_builds_nothing:
  assumes "0 < chunk_size_words" and "chunk_size_words < 30"
  shows "sliding_window_chunk text chunk_size_words overlap_words = [] \<and>
         build_index e docs chunk_size_words overlap_words st = (Inl NoChunks, st)"
  using assms
  by (simp add: sliding_window_chunk_small collect_chunks_small build_index_def)

theorem small_chunk_size_builds_nothing_witness:
  "(0::int) < 20 \<and> (20::int) < 30 \<and>
   sliding_window_chunk demo_text 20 5 = [] \<and>
   build_index (demo_env 200) demo_docs 20 5 init_rag = (Inl NoChunks, init_rag)"
  using small_chunk_size_builds_nothing[of 20 demo_text 5 "demo_env 200" demo_docs init_rag]
  by simp

section \<open>Properties of the question classifier\<close>

lemma startswith_Nil [simp]: "startswith s []"
  by (simp add: startswith_def)

lemma startswith_Cons:
  "startswith s (c # p) = (case s of [] \<Rightarrow> False | d # t \<Rightarrow> d = c \<and> startswith t p)"
  by (cases s) (auto simp: startswith_def)

lemma startswith_takeWhile:
  "\<forall>c\<in>set p. \<not> is_space c \<Longrightarrow>
   startswith (takeWhile (\<lambda>c. \<not> is_space c) s) p = startswith s p"
proof (induction p arbitrary: s)
  case Nil
  then show ?case by simp
next
  case (Cons c p)
  show ?case
  proof (cases s)
    case Nil
    then show ?thesis by (simp add: startswith_Cons)
  next
    case (Cons d t)
    then show ?thesis using Cons.prems Cons.IH[of t] by (auto simp: startswith_Cons)
  qed
qed

lemma leading_word_prefix:
  "\<forall>c\<in>set p. \<not> is_space c \<Longrightarrow>
   startswith (leading_word question) p = startswith (strip (lower question)) p"
  unfolding leading_word_def by (rule startswith_takeWhile)

lemma detect_by_leading_word:
  "detect_question_type question =
     (let w = leading_word question
      in if startswith w ''who'' then ''PERSON_OR_TEAM''
         else if startswith w ''which'' then ''ENTITY''
         else if startswith w ''when'' then ''DATE''
         else if startswith w ''why'' then ''REASON''
         else ''FACT'')"
  by (simp add: detect_question_type_def Let_def leading_word_prefix is_space_def)

text \<open>
  C2, as amended: the classifier looks at the beginning of the leading word of the trimmed,
  lower-cased question, not at the whole word. It returns \<^verbatim>\<open>PERSON_OR_TEAM\<close> exactly when
  the leading word begins with \<open>who\<close>, \<^verbatim>\<open>ENTITY\<close> exactly when it begins with \<open>which\<close>,
  \<^verbatim>\<open>DATE\<close> exactly when it begins with \<open>when\<close>, \<^verbatim>\<open>REASON\<close> exactly when it begins with
  \<open>why\<close>, and \<^verbatim>\<open>FACT\<close> in every other case; two questions with the same leading word
  are classified alike. The claim as stated (the leading word \<^emph>\<open>is\<close> \<open>who\<close>) fails on
  \<open>Whose bat is this?\<close>, whose leading word is \<open>whose\<close>.
\<close>

theorem detect_question_type_by_prefix:
  "(detect_question_type question = ''PERSON_OR_TEAM'' \<longleftrightarrow>
      startswith (leading_word question) ''who'') \<and>
   (detect_question_type question = ''ENTITY'' \<longleftrightarrow>
      startswith (leading_word question) ''which'') \<and>
   (detect_question_type question = ''DATE'' \<longleftrightarrow>
      startswith (leading_word question) ''when'') \<and>
   (detect_question_type question = ''REASON'' \<longleftrightarrow>
      startswith (leading_word question) ''why'') \<and>
   (detect_question_type question = ''FACT'' \<longleftrightarrow>
      \<not> startswith (leading_word question) ''who'' \<and>
      \<not> startswith (leading_word question) ''which'' \<and>
      \<not> startswith (leading_word question) ''when'' \<and>
      \<not> startswith (leading_word question) ''why'') \<and>
   (\<forall>other. leading_word other = leading_word question \<longrightarrow>
      detect_question_type other = detect_question_type question)"
  unfolding detect_by_leading_word Let_def
  by (auto simp: startswith_Cons split: list.splits)

theorem detect_question_type_by_prefix_witness:
  "leading_word ''Whose bat is this?'' = leading_word ''  WHOSE turn?'' \<and>
   startswith (leading_word ''Whose bat is this?'') ''who'' \<and>
   detect_question_type ''  WHOSE turn?'' = ''PERSON_OR_TEAM''"
proof -
  have a: "leading_word ''  WHOSE turn?'' = ''whose''" by code_simp
  have b: "leading_word ''Whose bat is this?'' = ''whose''" by code_simp
  have c: "startswith ''whose'' ''who''" by code_simp
  show ?thesis
    using detect_question_type_by_prefix[of "''Whose bat is this?''"] a b c by simp
qed

theorem detect_question_type_leading_word_counterexample:
  "leading_word ''Whose bat is this?'' \<noteq> ''who'' \<and>
   detect_question_type ''Whose bat is this?'' = ''PERSON_OR_TEAM''"
  by code_simp

section \<open>Properties of the pipeline facade\<close>

lemma first_above_first:
  "i < length xs \<Longrightarrow> m \<le> snd (xs ! i) \<Longrightarrow> \<forall>j<i. snd (xs ! j) < m \<Longrightarrow>
   first_above xs m = Some (xs ! i)"
proof (induction xs m arbitrary: i rule: first_above.induct)
  case (1 m)
  then show ?case by simp
next
  case (2 c s rest m)
  show ?case
  proof (cases i)
    case 0
    then show ?thesis using "2.prems" by simp
  next
    case (Suc k)
    have "s < m" using "2.prems"(3) Suc by force
    moreover have "first_above rest m = Some (rest ! k)"
    proof (rule "2.IH")
      show "\<not> m \<le> s" using \<open>s < m\<close> by simp
      show "k < length rest" using "2.prems"(1) Suc by simp
      show "m \<le> snd (rest ! k)" using "2.prems"(2) Suc by simp
      show "\<forall>j<k. snd (rest ! j) < m" using "2.prems"(3) Suc by force
    qed
    ultimately show ?thesis using Suc by simp
  qed
qed

lemma first_above_none:
  "\<forall>p\<in>set xs. snd p < m \<Longrightarrow> first_above xs m = None"
  by (induction xs m rule: first_above.induct) auto

lemma py_get_first: "xs \<noteq> [] \<Longrightarrow> py_get xs 0 = Inr (xs ! 0)"
  by (simp add: py_get_def)

text \<open>
  C5: on an empty retrieval result the operation returns the empty answer and the fixed
  report, without an error. Otherwise sentence selection and extraction run on the first
  pair, in the given order, whose score is at least \<open>min_score\<close>, and on the first pair of
  all when no pair has such a score.
\<close>

theorem generate_extractive_answer_chunk_selection:
  "(retrieved = [] \<longrightarrow>
      generate_extractive_answer e query retrieved min_score =
        Inr ('''', ''Retrieved Context: (none)'')) \<and>
   (retrieved \<noteq> [] \<longrightarrow>
      (\<forall>i<length retrieved.
          min_score \<le> snd (retrieved ! i) \<and> (\<forall>j<i. snd (retrieved ! j) < min_score) \<longrightarrow>
          generate_extractive_answer e query retrieved min_score =
            answer_from e query retrieved (retrieved ! i)) \<and>
      ((\<forall>p\<in>set retrieved. snd p < min_score) \<longrightarrow>
          generate_extractive_answer e query retrieved min_score =
            answer_from e query retrieved (retrieved ! 0)))"
proof (intro conjI impI allI)
  assume "retrieved = []"
  then show "generate_extractive_answer e query retrieved min_score =
        Inr ('''', ''Retrieved Context: (none)'')"
    by (simp add: generate_extractive_answer_def)
next
  fix i
  assume ne: "retrieved \<noteq> []" and i: "i < length retrieved"
    and h: "min_score \<le> snd (retrieved ! i) \<and> (\<forall>j<i. snd (retrieved ! j) < min_score)"
  have "first_above retrieved min_score = Some (retrieved ! i)"
    using i h by (intro first_above_first) auto
  then show "generate_extractive_answer e query retrieved min_score =
            answer_from e query retrieved (retrieved ! i)"
    using ne by (simp add: generate_extractive_answer_def chosen_pair_def)
next
  assume ne: "retrieved \<noteq> []" and h: "\<forall>p\<in>set retrieved. snd p < min_score"
  have "first_above retrieved min_score = None" using h by (rule first_above_none)
  then show "generate_extractive_answer e query retrieved min_score =
            answer_from e query retrieved (retrieved ! 0)"
    using ne by (simp add: generate_extractive_answer_def chosen_pair_def py_get_first)
qed

theorem generate_extractive_answer_chunk_selection_witness:
  "demo_retrieved \<noteq> [] \<and>
   generate_extractive_answer (demo_env 200) ''When does it start?'' demo_retrieved 0.4 =
     answer_from (demo_env 200) ''When does it start?'' demo_retrieved (demo_retrieved ! 1) \<and>
   generate_extractive_answer (demo_env 200) ''When does it start?'' demo_retrieved 2 =
     answer_from (demo_env 200) ''When does it start?'' demo_retrieved (demo_retrieved ! 0)"
proof -
  have ne: "demo_retrieved \<noteq> []" and len: "1 < length demo_retrieved"
    by (simp_all add: demo_retrieved_def)
  have a: "(0.4::real) \<le> snd (demo_retrieved ! 1) \<and> (\<forall>j<1. snd (demo_retrieved ! j) < (0.4::real))"
    by (simp add: demo_retrieved_def)
  have b: "\<forall>p\<in>set demo_retrieved. snd p < (2::real)"
    by (simp add: demo_retrieved_def)
  show ?thesis
    using generate_extractive_answer_chunk_selection
            [of demo_retrieved "demo_env 200" "''When does it start?''" "0.4"]
          generate_extractive_answer_chunk_selection
            [of demo_retrieved "demo_env 200" "''When does it start?''" 2]
          ne len a b
    by blast
qed

section \<open>Properties of index building\<close>

lemma demo_built_fields:
  "fst (build_index (demo_env 200) demo_docs 40 10 init_rag) = Inr ()"
  "index demo_built = Some [119, 119]"
  "length (chunks demo_built) = 2"
  "dim demo_built = Some 1"
  by code_simp+

lemma demo_failed_fields:
  "fst (build_index (demo_env 200) demo_docs 70 0 demo_built) = Inl (External ''out of memory'')"
  "index demo_failed = Some [119, 119]"
  "length (chunks demo_failed) = 1"
  "dim demo_failed = Some 1"
  by code_simp+

lemma demo_failing_encode:
  "collect_chunks demo_docs 70 0 \<noteq> []"
  "encode (demo_env 200) (map chunk_text (collect_chunks demo_docs 70 0)) = Inl ''out of memory''"
  by code_simp+

text \<open>
  C1, as amended: when \<^verbatim>\<open>build_index\<close> raises the configuration error for an empty chunk
  list, the stored chunk list, the vector store and the recorded dimension are exactly as
  before the call; when the embedding step raises, the vector store and the recorded
  dimension are exactly as before the call. The claim as stated fails, since the new chunk
  list is stored before the embedding step runs: after a rebuild in which the embedding
  model raises, the object holds the new chunk list next to the old vector store.
\<close>

theorem build_index_failure_effects:
  "(collect_chunks docs chunk_size_words overlap_words = [] \<longrightarrow>
      build_index e docs chunk_size_words overlap_words st = (Inl NoChunks, st)) \<and>
   (collect_chunks docs chunk_size_words overlap_words \<noteq> [] \<and>
    encode e (map chunk_text (collect_chunks docs chunk_size_words overlap_words)) = Inl x \<longrightarrow>
      fst (build_index e docs chunk_size_words overlap_words st) = Inl (External x) \<and>
      index (snd (build_index e docs chunk_size_words overlap_words st)) = index st \<and>
      dim (snd (build_index e docs chunk_size_words overlap_words st)) = dim st)"
  by (simp add: build_index_def Let_def)

theorem build_index_failure_effects_witness:
  "collect_chunks demo_docs 70 0 \<noteq> [] \<and>
   encode (demo_env 200) (map chunk_text (collect_chunks demo_docs 70 0)) = Inl ''out of memory'' \<and>
   fst (build_index (demo_env 200) demo_docs 70 0 demo_built) = Inl (External ''out of memory'') \<and>
   index (snd (build_index (demo_env 200) demo_docs 70 0 demo_built)) = index demo_built \<and>
   dim (snd (build_index (demo_env 200) demo_docs 70 0 demo_built)) = dim demo_built"
  using build_index_failure_effects
          [of demo_docs 70 0 "demo_env 200" demo_built "''out of memory''"]
        demo_failing_encode
  by simp

theorem build_index_atomicity_counterexample:
  "fst (build_index (demo_env 200) demo_docs 40 10 init_rag) = Inr () \<and>
   length (chunks demo_built) = 2 \<and>
   fst (build_index (demo_env 200) demo_docs 70 0 demo_built) = Inl (External ''out of memory'') \<and>
   length (chunks (snd (build_index (demo_env 200) demo_docs 70 0 demo_built))) = 1"
  using demo_built_fields demo_failed_fields by (simp add: demo_failed_def)

section \<open>Properties of retrieval\<close>

lemma py_get_Inr:
  "py_get xs i = Inr x \<Longrightarrow> - 1 \<le> i \<Longrightarrow> i \<noteq> - 1 \<Longrightarrow>
   0 \<le> i \<and> i < int (length xs) \<and> x = xs ! nat i"
  by (auto simp: py_get_def split: if_splits)

lemma retrieve_loop_Inr:
  "retrieve_loop cs hits = Inr res \<Longrightarrow> \<forall>p\<in>set hits. - 1 \<le> fst p \<Longrightarrow>
   res = map (\<lambda>p. (cs ! nat (fst p), snd p)) (filter (\<lambda>p. fst p \<noteq> - 1) hits) \<and>
   (\<forall>p\<in>set hits. fst p \<noteq> - 1 \<longrightarrow> 0 \<le> fst p \<and> fst p < int (length cs))"
proof (induction hits arbitrary: res)
  case Nil
  then show ?case by simp
next
  case (Cons hit rest)
  obtain idx score where hit: "hit = (idx, score)" by (cases hit)
  show ?case
  proof (cases "idx = - 1")
    case True
    then show ?thesis using Cons.prems Cons.IH[of res] hit by simp
  next
    case False
    from Cons.prems(1) False hit obtain c where c: "py_get cs idx = (Inr c :: error + chunk)"
      by (cases "py_get cs idx :: error + chunk") auto
    from Cons.prems(1) False c hit obtain r where r: "retrieve_loop cs rest = Inr r"
      by (cases "retrieve_loop cs rest :: error + (chunk \<times> real) list") auto
    have res: "res = (c, score) # r" using Cons.prems(1) False c r hit by simp
    have "- 1 \<le> idx" using Cons.prems(2) hit by simp
    from py_get_Inr[OF c this False] have i: "0 \<le> idx" "idx < int (length cs)" "c = cs ! nat idx"
      by simp_all
    from Cons.IH[OF r] Cons.prems(2) show ?thesis using res i False hit by simp
  qed
qed

lemma retrieve_loop_valid:
  "\<forall>p\<in>set hits. fst p = - 1 \<or> (0 \<le> fst p \<and> fst p < int (length cs)) \<Longrightarrow>
   \<exists>res. retrieve_loop cs hits = (Inr res :: error + (chunk \<times> real) list)"
proof (induction hits)
  case Nil
  then show ?case by simp
next
  case (Cons hit rest)
  obtain idx score where hit: "hit = (idx, score)" by (cases hit)
  from Cons obtain r where r: "retrieve_loop cs rest = (Inr r :: error + (chunk \<times> real) list)"
    by auto
  show ?case
  proof (cases "idx = - 1")
    case True
    then show ?thesis using r hit by simp
  next
    case False
    then have c: "py_get cs idx = (Inr (cs ! nat idx) :: error + chunk)"
      using Cons.prems hit by (simp add: py_get_def)
    show ?thesis using False c r hit by simp
  qed
qed

lemma retrieve_loop_sentinels:
  "\<forall>p\<in>set hits. fst p = - 1 \<Longrightarrow> retrieve_loop cs hits = Inr []"
  by (induction hits) auto

lemma distinct_ints_bounded:
  assumes "distinct (ys :: int list)" and "\<forall>y\<in>set ys. 0 \<le> y \<and> y < int n"
  shows "length ys \<le> n"
proof -
  have "set ys \<subseteq> {0 ..< int n}" using assms(2) by auto
  then have "card (set ys) \<le> card {0 ..< int n}" by (intro card_mono) auto
  then show ?thesis using assms(1) by (simp add: distinct_card)
qed

lemma filter_fst_zip_distinct:
  assumes "distinct (filter P ids)"
  shows "distinct (map fst (filter (\<lambda>p. P (fst p)) (zip ids scores)))"
proof -
  have "map fst (filter (\<lambda>p. P (fst p)) (zip ids scores)) = filter P (map fst (zip ids scores))"
    by (simp add: filter_map comp_def)
  also have "map fst (zip ids scores) = take (min (length ids) (length scores)) ids"
    by (rule map_fst_zip_take)
  finally have e: "map fst (filter (\<lambda>p. P (fst p)) (zip ids scores)) =
      filter P (take (min (length ids) (length scores)) ids)" .
  define n where "n = min (length ids) (length scores)"
  have "filter P (take n ids @ drop n ids) = filter P (take n ids) @ filter P (drop n ids)"
    by (rule filter_append)
  then have "filter P ids = filter P (take n ids) @ filter P (drop n ids)"
    by simp
  then have "distinct (filter P (take n ids))"
    using assms by simp
  then show ?thesis using e by (simp add: n_def)
qed

text \<open>
  C6: when \<^verbatim>\<open>retrieve\<close> returns and the vector index has answered with one slot per
  requested neighbour, each slot holding the sentinel \<open>-1\<close> or a position, no position
  twice, the result has at most \<open>min(top_k, number of chunks)\<close> pairs, and it consists of
  exactly the slots whose id is not the sentinel, in the order of the index.
\<close>

theorem retrieve_length_and_sentinels:
  assumes "retrieve e st query top_k = Inr results"
    and "index st = Some ix"
    and "encode e [query] = Inr q_emb"
    and "index_search e ix q_emb top_k = Inr (scores0, ids0)"
    and "int (length ids0) = top_k"
    and "\<forall>i\<in>set ids0. - 1 \<le> i"
    and "distinct (filter (\<lambda>i. i \<noteq> - 1) ids0)"
  shows "int (length results) \<le> min top_k (int (length (chunks st))) \<and>
         results = map (\<lambda>p. (chunks st ! nat (fst p), snd p))
                     (filter (\<lambda>p. fst p \<noteq> - 1) (zip ids0 scores0))"
proof -
  let ?hits = "zip ids0 scores0"
  let ?kept = "filter (\<lambda>p. fst p \<noteq> - 1) ?hits"
  have loop: "retrieve_loop (chunks st) ?hits = Inr results"
    using assms(1-4) by (simp add: retrieve_def)
  have ge: "\<forall>p\<in>set ?hits. - 1 \<le> fst p"
    using assms(6) by (auto dest: set_zip_leftD)
  from retrieve_loop_Inr[OF loop ge] have
    res: "results = map (\<lambda>p. (chunks st ! nat (fst p), snd p)) ?kept" and
    rng: "\<forall>p\<in>set ?hits. fst p \<noteq> - 1 \<longrightarrow> 0 \<le> fst p \<and> fst p < int (length (chunks st))"
    by simp_all
  have "length ?kept \<le> length ?hits" by (rule length_filter_le)
  also have "\<dots> \<le> length ids0" by simp
  finally have a: "int (length results) \<le> top_k" using res assms(5) by simp
  have "distinct (map fst ?kept)"
    using assms(7) by (rule filter_fst_zip_distinct)
  moreover have "\<forall>y\<in>set (map fst ?kept). 0 \<le> y \<and> y < int (length (chunks st))"
    using rng by auto
  ultimately have "length (map fst ?kept) \<le> length (chunks st)"
    by (rule distinct_ints_bounded)
  then have b: "int (length results) \<le> int (length (chunks st))" using res by simp
  show ?thesis using a b res by simp
qed

lemma demo_retrieve_built:
  "encode (demo_env 200) [''ab ab''] = Inr [5]"
  "index_search (demo_env 200) [119, 119] [5] 3 = Inr ([595, 595, 0], [0, 1, - 1])"
  "index demo_built = Some [119, 119]"
  "length (chunks demo_built) = 2"
  "isl (retrieve (demo_env 200) demo_built ''ab ab'' 3) = False"
  by code_simp+

theorem retrieve_length_and_sentinels_witness:
  "retrieve (demo_env 200) demo_built ''ab ab'' 3 =
     Inr (projr (retrieve (demo_env 200) demo_built ''ab ab'' 3)) \<and>
   index demo_built = Some [119, 119] \<and>
   encode (demo_env 200) [''ab ab''] = Inr [5] \<and>
   index_search (demo_env 200) [119, 119] [5] 3 = Inr ([595, 595, 0], [0, 1, - 1]) \<and>
   int (length [0, 1, - 1 :: int]) = 3 \<and>
   list_all (\<lambda>i. - 1 \<le> i) [0, 1, - 1 :: int] \<and>
   distinct (filter (\<lambda>i. i \<noteq> - 1) [0, 1, - 1 :: int]) \<and>
   int (length (projr (retrieve (demo_env 200) demo_built ''ab ab'' 3)))
     \<le> min 3 (int (length (chunks demo_built)))"
proof -
  have r: "retrieve (demo_env 200) demo_built ''ab ab'' 3 =
     Inr (projr (retrieve (demo_env 200) demo_built ''ab ab'' 3))"
    using demo_retrieve_built(5) by (simp add: sum.expand)
  have h: "int (length [0, 1, - 1 :: int]) = 3" "\<forall>i\<in>set [0, 1, - 1 :: int]. - 1 \<le> i"
    "distinct (filter (\<lambda>i. i \<noteq> - 1) [0, 1, - 1 :: int])"
    by simp_all
  from retrieve_length_and_sentinels
         [OF r demo_retrieve_built(3) demo_retrieve_built(1) demo_retrieve_built(2) h]
  show ?thesis using r demo_retrieve_built h by simp
qed

lemma retrieve_loop_error:
  "retrieve_loop cs hits = Inl err \<Longrightarrow> err = IndexError"
proof (induction hits)
  case Nil
  then show ?case by simp
next
  case (Cons hit rest)
  obtain idx score where hit: "hit = (idx, score)" by (cases hit)
  show ?case
    using Cons hit
    by (auto simp: py_get_def split: if_splits sum.splits)
qed

text \<open>
  C7, as amended: \<^verbatim>\<open>retrieve\<close> raises the state error if and only if no index has been built.
  When an index exists, the embedding model and the vector index answer without raising,
  and every id the index returns is the sentinel or a position of the stored chunk list,
  \<^verbatim>\<open>retrieve\<close> returns a result; when every slot holds the sentinel, the result is empty.
  The claim as stated fails on an object whose rebuild has failed in the embedding step:
  it holds the old vector store next to a shorter chunk list, and the lookup of a returned id
  in the chunk list raises.
\<close>

theorem retrieve_raises_on_missing_index:
  "(retrieve e st query top_k = Inl IndexNotBuilt \<longleftrightarrow> index st = None) \<and>
   (index st = Some ix \<and> encode e [query] = Inr q_emb \<and>
    index_search e ix q_emb top_k = Inr (scores0, ids0) \<longrightarrow>
      ((\<forall>i\<in>set ids0. i = - 1 \<or> (0 \<le> i \<and> i < int (length (chunks st)))) \<longrightarrow>
         (\<exists>results. retrieve e st query top_k = Inr results)) \<and>
      ((\<forall>i\<in>set ids0. i = - 1) \<longrightarrow> retrieve e st query top_k = Inr []))"
proof (intro conjI impI)
  show "retrieve e st query top_k = Inl IndexNotBuilt \<longleftrightarrow> index st = None"
  proof
    assume a: "retrieve e st query top_k = Inl IndexNotBuilt"
    show "index st = None"
    proof (rule ccontr)
      assume "index st \<noteq> None"
      then obtain ix' where ix': "index st = Some ix'" by auto
      show False
      proof (cases "encode e [query]")
        case (Inl x)
        then show False using a ix' by (simp add: retrieve_def)
      next
        case q: (Inr q')
        show False
        proof (cases "index_search e ix' q' top_k")
          case (Inl x)
          then show False using a ix' q by (simp add: retrieve_def)
        next
          case (Inr out)
          obtain sc ids where out: "out = (sc, ids)" by (cases out)
          have "retrieve_loop (chunks st) (zip ids sc) = Inl IndexNotBuilt"
            using a ix' q Inr out by (simp add: retrieve_def)
          from retrieve_loop_error[OF this] show False by simp
        qed
      qed
    qed
  next
    assume "index st = None"
    then show "retrieve e st query top_k = Inl IndexNotBuilt" by (simp add: retrieve_def)
  qed
next
  assume h: "index st = Some ix \<and> encode e [query] = Inr q_emb \<and>
    index_search e ix q_emb top_k = Inr (scores0, ids0)"
    and v: "\<forall>i\<in>set ids0. i = - 1 \<or> (0 \<le> i \<and> i < int (length (chunks st)))"
  have "\<forall>p\<in>set (zip ids0 scores0). fst p = - 1 \<or> (0 \<le> fst p \<and> fst p < int (length (chunks st)))"
    using v by (auto dest: set_zip_leftD)
  from retrieve_loop_valid[OF this] show "\<exists>results. retrieve e st query top_k = Inr results"
    using h by (simp add: retrieve_def)
next
  assume h: "index st = Some ix \<and> encode e [query] = Inr q_emb \<and>
    index_search e ix q_emb top_k = Inr (scores0, ids0)"
    and v: "\<forall>i\<in>set ids0. i = - 1"
  have "\<forall>p\<in>set (zip ids0 scores0). fst p = - 1"
    using v by (auto dest: set_zip_leftD)
  from retrieve_loop_sentinels[OF this] show "retrieve e st query top_k = Inr []"
    using h by (simp add: retrieve_def)
qed

theorem retrieve_raises_on_missing_index_witness:
  "index demo_built = Some [119, 119] \<and>
   encode (demo_env 200) [''ab ab''] = Inr [5] \<and>
   index_search (demo_env 200) [119, 119] [5] 3 = Inr ([595, 595, 0], [0, 1, - 1]) \<and>
   list_all (\<lambda>i. i = - 1 \<or> (0 \<le> i \<and> i < int (length (chunks demo_built)))) [0, 1, - 1] \<and>
   (\<exists>results. retrieve (demo_env 200) demo_built ''ab ab'' 3 = Inr results) \<and>
   retrieve (demo_env 200) init_rag ''ab ab'' 3 = Inl IndexNotBuilt"
proof -
  have v: "\<forall>i\<in>set [0, 1, - 1 :: int]. i = - 1 \<or> (0 \<le> i \<and> i < int (length (chunks demo_built)))"
    using demo_retrieve_built(4) by simp
  have n: "index (init_rag :: nat list rag) = None" by (simp add: init_rag_def)
  show ?thesis
    using retrieve_raises_on_missing_index
            [of "demo_env 200" demo_built "''ab ab''" 3 "[119, 119]" "[5]" "[595, 595, 0]"
                "[0, 1, - 1]"]
          retrieve_raises_on_missing_index
            [of "demo_env 200" init_rag "''ab ab''" 3 "[119, 119]" "[5]" "[595, 595, 0]"
                "[0, 1, - 1]"]
          demo_retrieve_built v n
    unfolding list_all_iff by blast
qed

theorem retrieve_after_failed_rebuild_counterexample:
  "index demo_failed = Some [119, 119] \<and>
   retrieve (demo_env 200) demo_failed ''ab ab'' 2 = Inl IndexError"
  by code_simp

section \<open>Properties of the matcher\<close>

lemma in_bind_m:
  "(k, d) \<in> set (bind_m xs f) \<longleftrightarrow>
   (\<exists>j c c'. (j, c) \<in> set xs \<and> (k, c') \<in> set (f j) \<and> d = later_cap c c')"
  by (force simp: bind_m_def)

lemma set_iter_greedy_0: "set (iter_greedy f 0 i) = {(i, None)}"
  by simp

lemma in_iter_greedy_Suc:
  "(k, d) \<in> set (iter_greedy f (Suc n) i) \<longleftrightarrow>
   (k = i \<and> d = None) \<or>
   (\<exists>j c c'. (j, c) \<in> set (f i) \<and> i < j \<and> (k, c') \<in> set (iter_greedy f n j) \<and>
      d = later_cap c c')"
  by (auto simp: in_bind_m)

lemma set_iter_lazy: "set (iter_lazy f n i) = set (iter_greedy f n i)"
proof (induction n arbitrary: i)
  case 0
  then show ?case by simp
next
  case (Suc n)
  have "set (bind_m (filter (\<lambda>(j, c). i < j) (f i)) (iter_lazy f n)) =
        set (bind_m (filter (\<lambda>(j, c). i < j) (f i)) (iter_greedy f n))"
    by (auto simp: in_bind_m Suc)
  then show ?case by auto
qed


subsection \<open>Positions stay inside the string\<close>

lemma lit_at_length:
  "lit_at ic s l i \<Longrightarrow> i \<le> length s \<Longrightarrow> i + length l \<le> length s"
proof -
  assume a: "lit_at ic s l i" and b: "i \<le> length s"
  have "length (take (length l) (drop i s)) = length l"
  proof (cases ic)
    case True
    then have "lower (take (length l) (drop i s)) = lower l" using a by (simp add: lit_at_def)
    then have "length (lower (take (length l) (drop i s))) = length (lower l)" by simp
    then show ?thesis by (simp add: lower_def)
  next
    case False
    then have "take (length l) (drop i s) = l" using a by (simp add: lit_at_def)
    then show ?thesis by (metis)
  qed
  then show ?thesis using b by simp
qed

lemma iter_greedy_range:
  assumes f: "\<forall>a b c. a \<le> length s \<longrightarrow> (b, c) \<in> set (f a) \<longrightarrow> a \<le> b \<and> b \<le> length s"
  shows "i \<le> length s \<Longrightarrow> (j, d) \<in> set (iter_greedy f n i) \<Longrightarrow> i \<le> j \<and> j \<le> length s"
proof (induction n arbitrary: i j d)
  case 0
  then show ?case by simp
next
  case (Suc n)
  from Suc.prems(2) consider "j = i" |
    m c c' where "(m, c) \<in> set (f i)" "i < m" "(j, c') \<in> set (iter_greedy f n m)"
    unfolding in_iter_greedy_Suc by blast
  then show ?case
  proof cases
    case 1
    then show ?thesis using Suc.prems(1) by simp
  next
    case 2
    from f Suc.prems(1) 2(1) have "m \<le> length s" by blast
    from Suc.IH[OF this 2(3)] 2(2) show ?thesis by simp
  qed
qed

lemma in_ms_Seq:
  "(k, d) \<in> set (ms ic s (Seq a b) i) \<longleftrightarrow>
   (\<exists>j c c'. (j, c) \<in> set (ms ic s a i) \<and> (k, c') \<in> set (ms ic s b j) \<and> d = later_cap c c')"
  unfolding ms.simps in_bind_m by blast

lemma in_ms_Plus:
  "(k, d) \<in> set (ms ic s (Plus a) i) \<longleftrightarrow>
   (\<exists>j c c'. (j, c) \<in> set (ms ic s a i) \<and>
      (k, c') \<in> set (iter_greedy (ms ic s a) (length s - i) j) \<and> d = later_cap c c')"
  unfolding ms.simps in_bind_m by blast

lemma in_ms_Alt:
  "(k, d) \<in> set (ms ic s (Alt a b) i) \<longleftrightarrow>
   (k, d) \<in> set (ms ic s a i) \<or> (k, d) \<in> set (ms ic s b i)"
  by simp

lemma in_ms_Opt:
  "(k, d) \<in> set (ms ic s (Opt a) i) \<longleftrightarrow> (k, d) \<in> set (ms ic s a i) \<or> (k = i \<and> d = None)"
  by simp blast

lemma in_ms_Grp:
  "(k, d) \<in> set (ms ic s (Grp a) i) \<longleftrightarrow> (\<exists>c. (k, c) \<in> set (ms ic s a i)) \<and> d = Some (i, k)"
  by (simp add: image_iff split_beta) (metis prod.collapse fst_conv snd_conv)

lemma in_ms_Lit:
  "(k, d) \<in> set (ms ic s (Lit l) i) \<longleftrightarrow> lit_at ic s l i \<and> k = i + length l \<and> d = None"
  by simp blast

lemma in_ms_Cls:
  "(k, d) \<in> set (ms ic s (Cls c) i) \<longleftrightarrow>
   i < length s \<and> cls_at ic c (s ! i) \<and> k = Suc i \<and> d = None"
  by simp blast

lemma in_ms_WordB:
  "(k, d) \<in> set (ms ic s WordB i) \<longleftrightarrow> word_boundary s i \<and> k = i \<and> d = None"
  by simp blast

lemma in_ms_Eos:
  "(k, d) \<in> set (ms ic s Eos i) \<longleftrightarrow> at_end s i \<and> k = i \<and> d = None"
  by simp blast

lemma in_ms_Behind:
  "(k, d) \<in> set (ms ic s (Behind c) i) \<longleftrightarrow>
   0 < i \<and> i \<le> length s \<and> cls_match c (s ! (i - 1)) \<and> k = i \<and> d = None"
  by simp blast

lemmas in_ms = in_ms_Seq in_ms_Plus in_ms_Alt in_ms_Opt in_ms_Grp in_ms_Lit in_ms_Cls
  in_ms_WordB in_ms_Eos in_ms_Behind

lemma ms_range:
  "i \<le> length s \<Longrightarrow> (j, c) \<in> set (ms ic s r i) \<Longrightarrow> i \<le> j \<and> j \<le> length s"
proof (induction r arbitrary: i j c)
  case (Lit l)
  from Lit(2) have "lit_at ic s l i" "j = i + length l" unfolding in_ms_Lit by simp_all
  then show ?case using lit_at_length[of ic s l i] Lit(1) by simp
next
  case (Cls k)
  from Cls(2) have "i < length s" "j = Suc i" unfolding in_ms_Cls by simp_all
  then show ?case by simp
next
  case (Seq a b)
  from Seq.prems(2) obtain m c1 c2 where
    m: "(m, c1) \<in> set (ms ic s a i)" "(j, c2) \<in> set (ms ic s b m)"
    unfolding in_ms_Seq by blast
  from Seq.IH(1)[OF Seq.prems(1) m(1)] have im: "i \<le> m" "m \<le> length s" by simp_all
  from Seq.IH(2)[OF im(2) m(2)] have "m \<le> j" "j \<le> length s" by simp_all
  then show ?case using im(1) by simp
next
  case (Alt a b)
  from Alt.prems(2) consider "(j, c) \<in> set (ms ic s a i)" | "(j, c) \<in> set (ms ic s b i)"
    unfolding in_ms_Alt by blast
  then show ?case
  proof cases
    case 1
    from Alt.IH(1)[OF Alt.prems(1) 1] show ?thesis .
  next
    case 2
    from Alt.IH(2)[OF Alt.prems(1) 2] show ?thesis .
  qed
next
  case (Opt a)
  from Opt.prems(2) consider "(j, c) \<in> set (ms ic s a i)" | "j = i"
    unfolding in_ms_Opt by blast
  then show ?case
  proof cases
    case 1
    from Opt.IH[OF Opt.prems(1) 1] show ?thesis .
  next
    case 2
    then show ?thesis using Opt.prems(1) by simp
  qed
next
  case (Star a)
  have r: "\<forall>x y z. x \<le> length s \<longrightarrow> (y, z) \<in> set (ms ic s a x) \<longrightarrow> x \<le> y \<and> y \<le> length s"
    using Star.IH by blast
  have "(j, c) \<in> set (iter_greedy (ms ic s a) (length s - i) i)" using Star.prems(2) by simp
  from iter_greedy_range[of s "ms ic s a", OF r Star.prems(1) this] show ?case .
next
  case (Plus a)
  from Plus.prems(2) obtain m c1 c2 where
    m: "(m, c1) \<in> set (ms ic s a i)" "(j, c2) \<in> set (iter_greedy (ms ic s a) (length s - i) m)"
    unfolding in_ms_Plus by blast
  from Plus.IH[OF Plus.prems(1) m(1)] have im: "i \<le> m" "m \<le> length s" by simp_all
  have r: "\<forall>x y z. x \<le> length s \<longrightarrow> (y, z) \<in> set (ms ic s a x) \<longrightarrow> x \<le> y \<and> y \<le> length s"
    using Plus.IH by blast
  from iter_greedy_range[of s "ms ic s a", OF r im(2) m(2)] have "m \<le> j" "j \<le> length s"
    by simp_all
  then show ?case using im(1) by simp
next
  case (LazyStar a)
  have r: "\<forall>x y z. x \<le> length s \<longrightarrow> (y, z) \<in> set (ms ic s a x) \<longrightarrow> x \<le> y \<and> y \<le> length s"
    using LazyStar.IH by blast
  have "(j, c) \<in> set (iter_greedy (ms ic s a) (length s - i) i)"
    using LazyStar.prems(2) by (simp add: set_iter_lazy)
  from iter_greedy_range[of s "ms ic s a", OF r LazyStar.prems(1) this] show ?case .
next
  case (Grp a)
  from Grp.prems(2) obtain c' where "(j, c') \<in> set (ms ic s a i)" unfolding in_ms_Grp by blast
  from Grp.IH[OF Grp.prems(1) this] show ?case .
next
  case WordB
  from WordB(2) have "j = i" unfolding in_ms_WordB by simp
  then show ?case using WordB(1) by simp
next
  case Eos
  from Eos(2) have "j = i" unfolding in_ms_Eos by simp
  then show ?case using Eos(1) by simp
next
  case (Behind k)
  from Behind(2) have "j = i" unfolding in_ms_Behind by simp
  then show ?case using Behind(1) by simp
qed

subsection \<open>Patterns without a group capture nothing\<close>

lemma iter_greedy_no_cap:
  assumes f: "\<forall>a b c. (b, c) \<in> set (f a) \<longrightarrow> c = None"
  shows "(j, d) \<in> set (iter_greedy f n i) \<Longrightarrow> d = None"
proof (induction n arbitrary: i j d)
  case 0
  then show ?case by simp
next
  case (Suc n)
  from Suc.prems consider "d = None" |
    m c c' where "(m, c) \<in> set (f i)" "(j, c') \<in> set (iter_greedy f n m)" "d = later_cap c c'"
    unfolding in_iter_greedy_Suc by blast
  then show ?case
  proof cases
    case 1
    then show ?thesis .
  next
    case 2
    from f 2(1) have "c = None" by blast
    with Suc.IH[OF 2(2)] 2(3) show ?thesis by (simp add: later_cap_def)
  qed
qed

lemma ms_no_cap:
  "no_grp r \<Longrightarrow> (j, c) \<in> set (ms ic s r i) \<Longrightarrow> c = None"
proof (induction r arbitrary: i j c)
  case (Lit l)
  then show ?case unfolding in_ms_Lit by simp
next
  case (Cls k)
  then show ?case unfolding in_ms_Cls by simp
next
  case (Seq a b)
  from Seq.prems(2) obtain m c1 c2 where
    m: "(m, c1) \<in> set (ms ic s a i)" "(j, c2) \<in> set (ms ic s b m)" "c = later_cap c1 c2"
    unfolding in_ms_Seq by blast
  have "no_grp a" "no_grp b" using Seq.prems(1) by simp_all
  from Seq.IH(1)[OF this(1) m(1)] Seq.IH(2)[OF this(2) m(2)] m(3)
  show ?case by (simp add: later_cap_def)
next
  case (Alt a b)
  have g: "no_grp a" "no_grp b" using Alt.prems(1) by simp_all
  from Alt.prems(2) consider "(j, c) \<in> set (ms ic s a i)" | "(j, c) \<in> set (ms ic s b i)"
    unfolding in_ms_Alt by blast
  then show ?case
  proof cases
    case 1
    from Alt.IH(1)[OF g(1) 1] show ?thesis .
  next
    case 2
    from Alt.IH(2)[OF g(2) 2] show ?thesis .
  qed
next
  case (Opt a)
  have g: "no_grp a" using Opt.prems(1) by simp
  from Opt.prems(2) consider "(j, c) \<in> set (ms ic s a i)" | "c = None"
    unfolding in_ms_Opt by blast
  then show ?case
  proof cases
    case 1
    from Opt.IH[OF g 1] show ?thesis .
  next
    case 2
    then show ?thesis .
  qed
next
  case (Star a)
  have g: "no_grp a" using Star.prems(1) by simp
  have r: "\<forall>x y z. (y, z) \<in> set (ms ic s a x) \<longrightarrow> z = None"
    using Star.IH[OF g] by blast
  have "(j, c) \<in> set (iter_greedy (ms ic s a) (length s - i) i)" using Star.prems(2) by simp
  from iter_greedy_no_cap[of "ms ic s a", OF r this] show ?case .
next
  case (Plus a)
  have g: "no_grp a" using Plus.prems(1) by simp
  from Plus.prems(2) obtain m c1 c2 where
    m: "(m, c1) \<in> set (ms ic s a i)" "(j, c2) \<in> set (iter_greedy (ms ic s a) (length s - i) m)"
      "c = later_cap c1 c2"
    unfolding in_ms_Plus by blast
  have c1: "c1 = None" by (rule Plus.IH[OF g m(1)])
  have r: "\<forall>x y z. (y, z) \<in> set (ms ic s a x) \<longrightarrow> z = None"
    using Plus.IH[OF g] by blast
  from iter_greedy_no_cap[of "ms ic s a", OF r m(2)] have "c2 = None" .
  then show ?case using c1 m(3) by (simp add: later_cap_def)
next
  case (LazyStar a)
  have g: "no_grp a" using LazyStar.prems(1) by simp
  have r: "\<forall>x y z. (y, z) \<in> set (ms ic s a x) \<longrightarrow> z = None"
    using LazyStar.IH[OF g] by blast
  have "(j, c) \<in> set (iter_greedy (ms ic s a) (length s - i) i)"
    using LazyStar.prems(2) by (simp add: set_iter_lazy)
  from iter_greedy_no_cap[of "ms ic s a", OF r this] show ?case .
next
  case (Grp a)
  then show ?case by simp
next
  case WordB
  then show ?case unfolding in_ms_WordB by simp
next
  case Eos
  then show ?case unfolding in_ms_Eos by simp
next
  case (Behind k)
  then show ?case unfolding in_ms_Behind by simp
qed

subsection \<open>Searching\<close>

lemma match_at_None: "match_at ic r s i = None \<longleftrightarrow> ms ic s r i = []"
  by (simp add: match_at_def split: list.splits prod.splits)

lemma match_at_Some:
  "match_at ic r s i = Some m \<Longrightarrow> m_start m = i \<and> (m_end m, m_cap m) \<in> set (ms ic s r i)"
  by (auto simp: match_at_def split: list.splits prod.splits)

lemma search_in_None:
  "search_in ic r s ps = None \<longleftrightarrow> (\<forall>i\<in>set ps. ms ic s r i = [])"
proof (induction ps)
  case Nil
  then show ?case by simp
next
  case (Cons i ps)
  show ?case
  proof (cases "match_at ic r s i")
    case None
    then show ?thesis using Cons match_at_None[of ic r s i] by simp
  next
    case (Some m)
    then have "ms ic s r i \<noteq> []" using match_at_None[of ic r s i] by simp
    then show ?thesis using Some by simp
  qed
qed

lemma search_in_upt_Some:
  "search_in ic r s [a ..< b] = Some m \<Longrightarrow>
   a \<le> m_start m \<and> m_start m < b \<and> match_at ic r s (m_start m) = Some m \<and>
   (\<forall>k. a \<le> k \<and> k < m_start m \<longrightarrow> ms ic s r k = [])"
proof (induction "b - a" arbitrary: a)
  case 0
  then show ?case by simp
next
  case (Suc n)
  then have ab: "a < b" by simp
  then have upt: "[a ..< b] = a # [Suc a ..< b]" by (simp add: upt_conv_Cons)
  show ?case
  proof (cases "match_at ic r s a")
    case None
    then have "search_in ic r s [Suc a ..< b] = Some m" using Suc.prems upt by simp
    moreover have "n = b - Suc a" using Suc.hyps(2) by simp
    ultimately have IH: "Suc a \<le> m_start m \<and> m_start m < b \<and>
        match_at ic r s (m_start m) = Some m \<and>
        (\<forall>k. Suc a \<le> k \<and> k < m_start m \<longrightarrow> ms ic s r k = [])"
      using Suc.hyps(1) by blast
    have "ms ic s r a = []" using None by (simp add: match_at_None)
    then have "\<forall>k. a \<le> k \<and> k < m_start m \<longrightarrow> ms ic s r k = []"
      using IH by (metis Suc_leI le_neq_implies_less)
    then show ?thesis using IH by simp
  next
    case (Some m')
    then have "m' = m" using Suc.prems upt by simp
    then have "match_at ic r s a = Some m" using Some by simp
    moreover from match_at_Some[OF this] have "m_start m = a" by simp
    ultimately show ?thesis using ab by auto
  qed
qed

lemma re_search_Some:
  assumes "re_search ic r s = Some m"
  shows "m_start m \<le> length s"
    and "(m_end m, m_cap m) \<in> set (ms ic s r (m_start m))"
    and "\<forall>k<m_start m. ms ic s r k = []"
    and "m_start m \<le> m_end m" and "m_end m \<le> length s"
proof -
  from search_in_upt_Some[OF assms[unfolded re_search_def]] have
    a: "m_start m < Suc (length s)" and b: "match_at ic r s (m_start m) = Some m"
    and c: "\<forall>k. 0 \<le> k \<and> k < m_start m \<longrightarrow> ms ic s r k = []" by simp_all
  show 1: "m_start m \<le> length s" using a by simp
  show 2: "(m_end m, m_cap m) \<in> set (ms ic s r (m_start m))" using match_at_Some[OF b] by simp
  show "\<forall>k<m_start m. ms ic s r k = []" using c by simp
  from ms_range[OF 1 2] show "m_start m \<le> m_end m" and "m_end m \<le> length s" by simp_all
qed

lemma re_search_None: "re_search ic r s = None \<longleftrightarrow> (\<forall>i\<le>length s. ms ic s r i = [])"
  by (auto simp: re_search_def search_in_None)

lemma re_search_found:
  "i \<le> length s \<Longrightarrow> (j, c) \<in> set (ms ic s r i) \<Longrightarrow> re_search ic r s \<noteq> None"
  unfolding re_search_None by force

lemma ends_iff: "j \<in> ends ic s r i \<longleftrightarrow> (\<exists>c. (j, c) \<in> set (ms ic s r i))"
  by (force simp: ends_def)

subsection \<open>Substrings\<close>

lemma substr_append:
  "i \<le> m \<Longrightarrow> m \<le> j \<Longrightarrow> j \<le> length s \<Longrightarrow> substr s i j = substr s i m @ substr s m j"
proof -
  assume a: "i \<le> m" "m \<le> j" "j \<le> length s"
  have "j - i = (m - i) + (j - m)" using a by simp
  then have "take (j - i) (drop i s) =
      take (m - i) (drop i s) @ take (j - m) (drop (m - i) (drop i s))"
    by (simp only: take_add)
  moreover have "drop (m - i) (drop i s) = drop m s" using a by simp
  ultimately show ?thesis by (simp add: substr_def)
qed

lemma length_substr: "j \<le> length s \<Longrightarrow> length (substr s i j) = j - i"
  by (simp add: substr_def)

lemma substr_same [simp]: "substr s i i = []"
  by (simp add: substr_def)

lemma substr_Suc: "i < length s \<Longrightarrow> substr s i (Suc i) = [s ! i]"
  by (simp add: substr_def take_Suc_conv_app_nth hd_drop_conv_nth take_Suc)

subsection \<open>The matcher and the language of a plain pattern\<close>

lemma substr_split:
  assumes "substr s i j = u @ v" and "i \<le> j" and "j \<le> length s"
  shows "i + length u \<le> j \<and> u = substr s i (i + length u) \<and> v = substr s (i + length u) j"
proof -
  have len: "length u + length v = j - i"
    using assms by (metis length_append length_substr)
  then have m: "i \<le> i + length u" "i + length u \<le> j" using assms(2) by simp_all
  from substr_append[OF m assms(3)] assms(1)
  have "u @ v = substr s i (i + length u) @ substr s (i + length u) j" by simp
  moreover have "length (substr s i (i + length u)) = length u"
    using m assms(3) by (simp add: length_substr)
  ultimately show ?thesis using m by simp
qed

lemma iter_greedy_here: "(i, None) \<in> set (iter_greedy f n i)"
  by (cases n) simp_all

lemma iter_greedy_sound:
  assumes f: "\<forall>a b c. a \<le> length s \<longrightarrow> (b, c) \<in> set (f a) \<longrightarrow>
                a \<le> b \<and> b \<le> length s \<and> substr s a b \<in> L"
  shows "i \<le> length s \<Longrightarrow> (j, d) \<in> set (iter_greedy f n i) \<Longrightarrow>
         i \<le> j \<and> j \<le> length s \<and> substr s i j \<in> star L"
proof (induction n arbitrary: i j d)
  case 0
  then show ?case by (simp add: star_empty)
next
  case (Suc n)
  from Suc.prems(2) consider "j = i" |
    m c c' where "(m, c) \<in> set (f i)" "i < m" "(j, c') \<in> set (iter_greedy f n m)"
    unfolding in_iter_greedy_Suc by blast
  then show ?case
  proof cases
    case 1
    then show ?thesis using Suc.prems(1) by (simp add: star_empty)
  next
    case 2
    from f Suc.prems(1) 2(1) have m: "i \<le> m" "m \<le> length s" "substr s i m \<in> L" by blast+
    from Suc.IH[OF m(2) 2(3)] have j: "m \<le> j" "j \<le> length s" "substr s m j \<in> star L"
      by simp_all
    have "substr s i j = substr s i m @ substr s m j"
      using m(1) j(1,2) by (rule substr_append)
    then have "substr s i j \<in> star L" using star_step[OF m(3) j(3)] by simp
    then show ?thesis using m(1) j(1,2) by simp
  qed
qed

lemma iter_greedy_complete:
  assumes f: "\<forall>a b. a \<le> b \<and> b \<le> length s \<and> substr s a b \<in> L \<longrightarrow> (\<exists>c. (b, c) \<in> set (f a))"
  shows "w \<in> star L \<Longrightarrow> i \<le> j \<Longrightarrow> j \<le> length s \<Longrightarrow> w = substr s i j \<Longrightarrow>
         length s - i \<le> n \<Longrightarrow> \<exists>d. (j, d) \<in> set (iter_greedy f n i)"
proof (induction w arbitrary: i n rule: star.induct)
  case star_empty
  then have "j - i = 0" by (metis length_substr list.size(3))
  then have "j = i" using star_empty.prems(1) by simp
  then show ?case using iter_greedy_here[of i f n] by blast
next
  case (star_step u v)
  show ?case
  proof (cases "u = []")
    case True
    then have "v = substr s i j" using star_step.prems(3) by simp
    from star_step.IH[OF star_step.prems(1,2) this star_step.prems(4)] show ?thesis .
  next
    case False
    define m where "m = i + length u"
    from substr_split[OF star_step.prems(3)[symmetric] star_step.prems(1,2)]
    have sp: "m \<le> j" "u = substr s i m" "v = substr s m j" by (simp_all add: m_def)
    have im: "i < m" using False by (simp add: m_def)
    have "i \<le> m \<and> m \<le> length s \<and> substr s i m \<in> L"
      using im sp(1,2) star_step.prems(2) star_step.hyps(1) by simp
    with f obtain c where c: "(m, c) \<in> set (f i)" by blast
    obtain n' where n': "n = Suc n'"
      using im sp(1) star_step.prems(2,4) by (cases n) simp_all
    have "length s - m \<le> n'" using n' star_step.prems(4) im by simp
    from star_step.IH[OF sp(1) star_step.prems(2) sp(3) this]
    obtain d where "(j, d) \<in> set (iter_greedy f n' m)" by blast
    then have "(j, later_cap c d) \<in> set (iter_greedy f (Suc n') i)"
      unfolding in_iter_greedy_Suc using c im by blast
    then show ?thesis using n' by blast
  qed
qed

lemma lit_at_plain:
  "i \<le> length s \<Longrightarrow> lit_at False s l i \<longleftrightarrow> i + length l \<le> length s \<and> substr s i (i + length l) = l"
proof
  assume i: "i \<le> length s" and a: "lit_at False s l i"
  then have e: "take (length l) (drop i s) = l" by (simp add: lit_at_def)
  show "i + length l \<le> length s \<and> substr s i (i + length l) = l"
    using lit_at_length[OF a i] e by (simp add: substr_def)
next
  assume "i \<le> length s" and "i + length l \<le> length s \<and> substr s i (i + length l) = l"
  then show "lit_at False s l i" by (simp add: lit_at_def substr_def)
qed

lemma ms_lang:
  "plain r \<Longrightarrow> i \<le> length s \<Longrightarrow>
   (\<exists>c. (j, c) \<in> set (ms False s r i)) \<longleftrightarrow> i \<le> j \<and> j \<le> length s \<and> substr s i j \<in> lang r"
proof (induction r arbitrary: i j)
  case (Lit l)
  show ?case
  proof
    assume "\<exists>c. (j, c) \<in> set (ms False s (Lit l) i)"
    then have "lit_at False s l i" "j = i + length l" unfolding in_ms_Lit by simp_all
    then show "i \<le> j \<and> j \<le> length s \<and> substr s i j \<in> lang (Lit l)"
      using lit_at_plain[OF Lit(2), of l] by simp
  next
    assume a: "i \<le> j \<and> j \<le> length s \<and> substr s i j \<in> lang (Lit l)"
    then have "substr s i j = l" by simp
    then have "length l = j - i" using a by (metis length_substr)
    then have "j = i + length l" using a by simp
    then show "\<exists>c. (j, c) \<in> set (ms False s (Lit l) i)"
      unfolding in_ms_Lit using a lit_at_plain[OF Lit(2), of l] \<open>substr s i j = l\<close> by simp
  qed
next
  case (Cls k)
  show ?case
  proof
    assume "\<exists>c. (j, c) \<in> set (ms False s (Cls k) i)"
    then have "i < length s" "cls_match k (s ! i)" "j = Suc i"
      unfolding in_ms_Cls by (simp_all add: cls_at_def)
    then show "i \<le> j \<and> j \<le> length s \<and> substr s i j \<in> lang (Cls k)"
      by (simp add: substr_Suc)
  next
    assume a: "i \<le> j \<and> j \<le> length s \<and> substr s i j \<in> lang (Cls k)"
    then obtain c where c: "substr s i j = [c]" "cls_match k c" by auto
    then have "j - i = 1" using a by (metis length_substr length_Cons list.size(3) One_nat_def)
    then have j: "j = Suc i" "i < length s" using a by linarith+
    then have "c = s ! i" using c(1) by (simp add: substr_Suc)
    then show "\<exists>c. (j, c) \<in> set (ms False s (Cls k) i)"
      unfolding in_ms_Cls using j c(2) by (simp add: cls_at_def)
  qed
next
  case (Seq a b)
  have pa: "plain a" and pb: "plain b" using Seq.prems(1) by simp_all
  show ?case
  proof
    assume "\<exists>c. (j, c) \<in> set (ms False s (Seq a b) i)"
    then obtain m c1 c2 where m: "(m, c1) \<in> set (ms False s a i)" "(j, c2) \<in> set (ms False s b m)"
      unfolding in_ms_Seq by blast
    from Seq.IH(1)[OF pa Seq.prems(2), of m] m(1)
    have 1: "i \<le> m" "m \<le> length s" "substr s i m \<in> lang a" by blast+
    from Seq.IH(2)[OF pb 1(2), of j] m(2)
    have 2: "m \<le> j" "j \<le> length s" "substr s m j \<in> lang b" by blast+
    have "substr s i j = substr s i m @ substr s m j" using 1(1) 2(1,2) by (rule substr_append)
    then have "substr s i j \<in> lang (Seq a b)" using 1(3) 2(3) by auto
    then show "i \<le> j \<and> j \<le> length s \<and> substr s i j \<in> lang (Seq a b)"
      using 1(1) 2(1,2) by simp
  next
    assume h: "i \<le> j \<and> j \<le> length s \<and> substr s i j \<in> lang (Seq a b)"
    then obtain u v where uv: "substr s i j = u @ v" "u \<in> lang a" "v \<in> lang b" by auto
    define m where "m = i + length u"
    from substr_split[OF uv(1)] h
    have sp: "m \<le> j" "u = substr s i m" "v = substr s m j" by (simp_all add: m_def)
    have im: "i \<le> m" by (simp add: m_def)
    have ml: "m \<le> length s" using sp(1) h by simp
    from Seq.IH(1)[OF pa Seq.prems(2), of m] im ml sp(2) uv(2)
    obtain c1 where c1: "(m, c1) \<in> set (ms False s a i)" by auto
    from Seq.IH(2)[OF pb ml, of j] sp(1,3) uv(3) h
    obtain c2 where c2: "(j, c2) \<in> set (ms False s b m)" by auto
    show "\<exists>c. (j, c) \<in> set (ms False s (Seq a b) i)"
      unfolding in_ms_Seq using c1 c2 by blast
  qed
next
  case (Alt a b)
  have pa: "plain a" and pb: "plain b" using Alt.prems(1) by simp_all
  show ?case
    unfolding in_ms_Alt using Alt.IH(1)[OF pa Alt.prems(2), of j] Alt.IH(2)[OF pb Alt.prems(2), of j]
    by auto
next
  case (Opt a)
  have pa: "plain a" using Opt.prems(1) by simp
  show ?case
  proof
    assume "\<exists>c. (j, c) \<in> set (ms False s (Opt a) i)"
    then consider c where "(j, c) \<in> set (ms False s a i)" | "j = i"
      unfolding in_ms_Opt by blast
    then show "i \<le> j \<and> j \<le> length s \<and> substr s i j \<in> lang (Opt a)"
    proof cases
      case 1
      then show ?thesis using Opt.IH[OF pa Opt.prems(2), of j] by auto
    next
      case 2
      then show ?thesis using Opt.prems(2) by simp
    qed
  next
    assume h: "i \<le> j \<and> j \<le> length s \<and> substr s i j \<in> lang (Opt a)"
    then consider "substr s i j = []" | "substr s i j \<in> lang a" by auto
    then show "\<exists>c. (j, c) \<in> set (ms False s (Opt a) i)"
    proof cases
      case 1
      then have "j - i = 0" using h by (metis length_substr list.size(3))
      then have "j = i" using h by simp
      then show ?thesis unfolding in_ms_Opt by blast
    next
      case 2
      then show ?thesis unfolding in_ms_Opt using Opt.IH[OF pa Opt.prems(2), of j] h by blast
    qed
  qed
next
  case (Star a)
  have pa: "plain a" using Star.prems(1) by simp
  have snd: "\<forall>x y z. x \<le> length s \<longrightarrow> (y, z) \<in> set (ms False s a x) \<longrightarrow>
                x \<le> y \<and> y \<le> length s \<and> substr s x y \<in> lang a"
    using Star.IH[OF pa] by blast
  have cmp: "\<forall>x y. x \<le> y \<and> y \<le> length s \<and> substr s x y \<in> lang a \<longrightarrow>
                (\<exists>c. (y, c) \<in> set (ms False s a x))"
    using Star.IH[OF pa] by (meson le_trans)
  show ?case
  proof
    assume "\<exists>c. (j, c) \<in> set (ms False s (Star a) i)"
    then obtain c where "(j, c) \<in> set (iter_greedy (ms False s a) (length s - i) i)" by auto
    from iter_greedy_sound[of s "ms False s a" "lang a", OF snd Star.prems(2) this]
    show "i \<le> j \<and> j \<le> length s \<and> substr s i j \<in> lang (Star a)" by simp
  next
    assume h: "i \<le> j \<and> j \<le> length s \<and> substr s i j \<in> lang (Star a)"
    then have "substr s i j \<in> star (lang a)" by simp
    from iter_greedy_complete[of s "lang a" "ms False s a", OF cmp this, of i j "length s - i"] h
    show "\<exists>c. (j, c) \<in> set (ms False s (Star a) i)" by simp
  qed
next
  case (LazyStar a)
  have pa: "plain a" using LazyStar.prems(1) by simp
  have snd: "\<forall>x y z. x \<le> length s \<longrightarrow> (y, z) \<in> set (ms False s a x) \<longrightarrow>
                x \<le> y \<and> y \<le> length s \<and> substr s x y \<in> lang a"
    using LazyStar.IH[OF pa] by blast
  have cmp: "\<forall>x y. x \<le> y \<and> y \<le> length s \<and> substr s x y \<in> lang a \<longrightarrow>
                (\<exists>c. (y, c) \<in> set (ms False s a x))"
    using LazyStar.IH[OF pa] by (meson le_trans)
  show ?case
  proof
    assume "\<exists>c. (j, c) \<in> set (ms False s (LazyStar a) i)"
    then obtain c where "(j, c) \<in> set (iter_greedy (ms False s a) (length s - i) i)"
      by (auto simp: set_iter_lazy)
    from iter_greedy_sound[of s "ms False s a" "lang a", OF snd LazyStar.prems(2) this]
    show "i \<le> j \<and> j \<le> length s \<and> substr s i j \<in> lang (LazyStar a)" by simp
  next
    assume h: "i \<le> j \<and> j \<le> length s \<and> substr s i j \<in> lang (LazyStar a)"
    then have "substr s i j \<in> star (lang a)" by simp
    from iter_greedy_complete[of s "lang a" "ms False s a", OF cmp this, of i j "length s - i"] h
    show "\<exists>c. (j, c) \<in> set (ms False s (LazyStar a) i)" by (simp add: set_iter_lazy)
  qed
next
  case (Plus a)
  have pa: "plain a" using Plus.prems(1) by simp
  have snd: "\<forall>x y z. x \<le> length s \<longrightarrow> (y, z) \<in> set (ms False s a x) \<longrightarrow>
                x \<le> y \<and> y \<le> length s \<and> substr s x y \<in> lang a"
    using Plus.IH[OF pa] by blast
  have cmp: "\<forall>x y. x \<le> y \<and> y \<le> length s \<and> substr s x y \<in> lang a \<longrightarrow>
                (\<exists>c. (y, c) \<in> set (ms False s a x))"
    using Plus.IH[OF pa] by (meson le_trans)
  show ?case
  proof
    assume "\<exists>c. (j, c) \<in> set (ms False s (Plus a) i)"
    then obtain m c1 c2 where m: "(m, c1) \<in> set (ms False s a i)"
      "(j, c2) \<in> set (iter_greedy (ms False s a) (length s - i) m)"
      unfolding in_ms_Plus by blast
    from snd Plus.prems(2) m(1) have 1: "i \<le> m" "m \<le> length s" "substr s i m \<in> lang a" by blast+
    from iter_greedy_sound[of s "ms False s a" "lang a", OF snd 1(2) m(2)]
    have 2: "m \<le> j" "j \<le> length s" "substr s m j \<in> star (lang a)" by simp_all
    have "substr s i j = substr s i m @ substr s m j" using 1(1) 2(1,2) by (rule substr_append)
    then have "substr s i j \<in> lang (Plus a)" using 1(3) 2(3) by auto
    then show "i \<le> j \<and> j \<le> length s \<and> substr s i j \<in> lang (Plus a)"
      using 1(1) 2(1,2) by simp
  next
    assume h: "i \<le> j \<and> j \<le> length s \<and> substr s i j \<in> lang (Plus a)"
    then obtain u v where uv: "substr s i j = u @ v" "u \<in> lang a" "v \<in> star (lang a)" by auto
    define m where "m = i + length u"
    from substr_split[OF uv(1)] h
    have sp: "m \<le> j" "u = substr s i m" "v = substr s m j" by (simp_all add: m_def)
    have im: "i \<le> m" by (simp add: m_def)
    have ml: "m \<le> length s" using sp(1) h by simp
    from cmp im ml sp(2) uv(2) obtain c1 where c1: "(m, c1) \<in> set (ms False s a i)" by blast
    have "length s - m \<le> length s - i" using im by simp
    from iter_greedy_complete[of s "lang a" "ms False s a", OF cmp uv(3) sp(1) _ sp(3) this] h
    obtain c2 where c2: "(j, c2) \<in> set (iter_greedy (ms False s a) (length s - i) m)" by blast
    show "\<exists>c. (j, c) \<in> set (ms False s (Plus a) i)"
      unfolding in_ms_Plus using c1 c2 by blast
  qed
next
  case (Grp a)
  have pa: "plain a" using Grp.prems(1) by simp
  show ?case unfolding in_ms_Grp using Grp.IH[OF pa Grp.prems(2), of j] by simp
next
  case WordB
  then show ?case by simp
next
  case Eos
  then show ?case by simp
next
  case (Behind k)
  then show ?case by simp
qed

subsection \<open>Trimming and the final period\<close>

lemma lstrip_id: "s \<noteq> [] \<Longrightarrow> \<not> is_space (hd s) \<Longrightarrow> lstrip s = s"
  by (cases s) (simp_all add: lstrip_def)

lemma rstrip_id: "s \<noteq> [] \<Longrightarrow> \<not> is_space (last s) \<Longrightarrow> rstrip s = s"
proof -
  assume a: "s \<noteq> []" "\<not> is_space (last s)"
  then have "rev s \<noteq> []" "\<not> is_space (hd (rev s))" by (simp_all add: hd_rev)
  then have "dropWhile is_space (rev s) = rev s" by (cases "rev s") simp_all
  then show ?thesis by (simp add: rstrip_def)
qed

lemma strip_id: "s \<noteq> [] \<Longrightarrow> \<not> is_space (hd s) \<Longrightarrow> \<not> is_space (last s) \<Longrightarrow> strip s = s"
  by (simp add: strip_def lstrip_id rstrip_id)

lemma strip_Nil [simp]: "strip [] = []"
  by (simp add: strip_def lstrip_def rstrip_def)

lemma lstrip_hd: "lstrip s \<noteq> [] \<Longrightarrow> \<not> is_space (hd (lstrip s))"
  unfolding lstrip_def by (rule hd_dropWhile)

lemma rstrip_last: "rstrip s \<noteq> [] \<Longrightarrow> \<not> is_space (last (rstrip s))"
proof -
  assume "rstrip s \<noteq> []"
  then have "dropWhile is_space (rev s) \<noteq> []" by (simp add: rstrip_def)
  then have "\<not> is_space (hd (dropWhile is_space (rev s)))" by (rule hd_dropWhile)
  then show ?thesis using \<open>dropWhile is_space (rev s) \<noteq> []\<close> by (simp add: rstrip_def last_rev)
qed

lemma rstrip_keeps_hd: "s \<noteq> [] \<Longrightarrow> \<not> is_space (hd s) \<Longrightarrow> rstrip s \<noteq> [] \<and> hd (rstrip s) = hd s"
proof -
  assume a: "s \<noteq> []" "\<not> is_space (hd s)"
  then obtain c t where s: "s = c # t" by (cases s) auto
  have "dropWhile is_space (rev t @ [c]) = dropWhile is_space (rev t) @ [c]"
    using a s by (simp add: dropWhile_append3)
  then have "rstrip s = c # rev (dropWhile is_space (rev t))" using s by (simp add: rstrip_def)
  then show ?thesis using s by simp
qed

lemma strip_hd_last:
  "strip s \<noteq> [] \<Longrightarrow> \<not> is_space (hd (strip s)) \<and> \<not> is_space (last (strip s))"
proof -
  assume a: "strip s \<noteq> []"
  then have l: "lstrip s \<noteq> []" by (auto simp: strip_def rstrip_def)
  from rstrip_keeps_hd[OF l lstrip_hd[OF l]] have "hd (strip s) = hd (lstrip s)"
    by (simp add: strip_def)
  then show ?thesis using lstrip_hd[OF l] rstrip_last[of "lstrip s"] a by (simp add: strip_def)
qed

lemma strip_idem: "strip (strip s) = strip s"
proof (cases "strip s = []")
  case True
  then show ?thesis by simp
next
  case False
  from strip_hd_last[OF False] show ?thesis by (simp add: strip_id False)
qed

lemma strip_nonempty: "s \<noteq> [] \<Longrightarrow> \<not> is_space (hd s) \<Longrightarrow> strip s \<noteq> []"
  using rstrip_keeps_hd[of "lstrip s"] by (simp add: strip_def lstrip_id)

lemma endswith_period: "endswith s ''.'' \<longleftrightarrow> s \<noteq> [] \<and> last s = CHR ''.''"
proof (cases "s = []")
  case True
  then show ?thesis by (simp add: endswith_def)
next
  case False
  then have "drop (length s - 1) s = [last s]"
    by (metis append_butlast_last_id append_eq_conv_conj length_butlast)
  then show ?thesis using False by (auto simp: endswith_def Suc_le_eq)
qed

lemma ensure_period_digit:
  "s \<noteq> [] \<Longrightarrow> is_digit (last s) \<Longrightarrow> ensure_period s = s @ ''.''"
  by (auto simp: ensure_period_def endswith_period is_digit_def)

subsection \<open>Strings of the date pattern\<close>

lemma plain_MONTH_RE: "plain MONTH_RE"
  by (simp add: MONTH_RE_def month_names_def)

lemma lang_alts_Lit: "ns \<noteq> [] \<Longrightarrow> lang (alts (map Lit ns)) = set ns"
proof (induction ns)
  case Nil
  then show ?case by simp
next
  case (Cons n ns)
  then show ?case by (cases ns) auto
qed

lemma lang_Seq_last:
  "\<forall>w\<in>lang b. w \<noteq> [] \<and> P (last w) \<Longrightarrow> \<forall>w\<in>lang (Seq a b). w \<noteq> [] \<and> P (last w)"
  by auto

lemma lang_Seq_hd:
  "\<forall>w\<in>lang a. w \<noteq> [] \<and> P (hd w) \<Longrightarrow> \<forall>w\<in>lang (Seq a b). w \<noteq> [] \<and> P (hd w)"
  by auto

lemma month_names_upper: "\<forall>w\<in>set month_names. w \<noteq> [] \<and> is_upper (hd w)"
  by (simp add: month_names_def is_upper_def)

lemma lang_MONTH_RE_shape:
  assumes "m \<in> lang MONTH_RE"
  shows "m \<noteq> [] \<and> is_upper (hd m) \<and> is_digit (last m)"
proof -
  have ne: "month_names \<noteq> []" by (simp add: month_names_def)
  have "\<forall>w\<in>lang (alts (map Lit month_names)). w \<noteq> [] \<and> is_upper (hd w)"
    using month_names_upper by (simp only: lang_alts_Lit[OF ne])
  then have h: "\<forall>w\<in>lang MONTH_RE. w \<noteq> [] \<and> is_upper (hd w)"
    unfolding MONTH_RE_def seqs.simps by (rule lang_Seq_hd)
  have "\<forall>w\<in>lang (Cls Digit). w \<noteq> [] \<and> is_digit (last w)" by auto
  then have l: "\<forall>w\<in>lang MONTH_RE. w \<noteq> [] \<and> is_digit (last w)"
    unfolding MONTH_RE_def seqs.simps by (intro lang_Seq_last)
  show ?thesis using h l assms by blast
qed

section \<open>Properties of the answer extractor\<close>

subsection \<open>The date pattern and the combined case\<close>

lemma re_search_plain_Some:
  assumes "plain r" and "re_search False r s = Some m"
  shows "m_start m \<le> m_end m \<and> m_end m \<le> length s \<and>
         substr s (m_start m) (m_end m) \<in> lang r \<and>
         (\<forall>i j. i < m_start m \<and> i \<le> j \<and> j \<le> length s \<longrightarrow> substr s i j \<notin> lang r)"
proof -
  note rs = re_search_Some[OF assms(2)]
  from ms_lang[OF assms(1) rs(1), of "m_end m"] rs(2)
  have a: "substr s (m_start m) (m_end m) \<in> lang r" by blast
  have b: "substr s i j \<notin> lang r" if h: "i < m_start m \<and> i \<le> j \<and> j \<le> length s" for i j
  proof
    assume "substr s i j \<in> lang r"
    moreover have "i \<le> length s" using h by simp
    ultimately obtain c where "(j, c) \<in> set (ms False s r i)"
      using ms_lang[OF assms(1), of i s j] h by blast
    then show False using rs(3) h by auto
  qed
  show ?thesis using a b rs(4,5) by blast
qed

lemma re_search_plain_None:
  assumes "plain r"
  shows "re_search False r s = None \<longleftrightarrow>
         (\<forall>i j. i \<le> j \<and> j \<le> length s \<longrightarrow> substr s i j \<notin> lang r)"
proof
  assume n: "re_search False r s = None"
  show "\<forall>i j. i \<le> j \<and> j \<le> length s \<longrightarrow> substr s i j \<notin> lang r"
  proof (intro allI impI notI)
    fix i j
    assume h: "i \<le> j \<and> j \<le> length s" and "substr s i j \<in> lang r"
    moreover have i: "i \<le> length s" using h by simp
    ultimately obtain c where "(j, c) \<in> set (ms False s r i)"
      using ms_lang[OF assms, of i s j] by blast
    then show False using n i unfolding re_search_None by auto
  qed
next
  assume a: "\<forall>i j. i \<le> j \<and> j \<le> length s \<longrightarrow> substr s i j \<notin> lang r"
  show "re_search False r s = None"
  proof (rule ccontr)
    assume "re_search False r s \<noteq> None"
    then obtain m where "re_search False r s = Some m" by auto
    from re_search_plain_Some[OF assms this] a show False by blast
  qed
qed

lemma extract_without_combined_case:
  assumes "\<not> asks_host_and_date (lower question) \<or> host_date_rule (strip sentence) = Inr None"
  shows "extract_short_answer sentence qtype question = type_cascade (strip sentence) qtype"
  using assms by (auto simp: extract_short_answer_def Let_def)

subsection \<open>Literal text\<close>

lemma lit_at_bound:
  assumes "l \<noteq> []" and "lit_at ic s l i"
  shows "i + length l \<le> length s"
proof -
  have "length (take (length l) (drop i s)) = length l"
  proof (cases ic)
    case True
    then have "lower (take (length l) (drop i s)) = lower l" using assms(2) by (simp add: lit_at_def)
    then have "length (lower (take (length l) (drop i s))) = length (lower l)" by simp
    then show ?thesis by (simp add: lower_def)
  next
    case False
    then have "take (length l) (drop i s) = l" using assms(2) by (simp add: lit_at_def)
    then show ?thesis by simp
  qed
  then have "length l \<le> length s - i" by simp
  moreover have "0 < length l" using assms(1) by simp
  ultimately show ?thesis by linarith
qed

lemma lit_at_append:
  "lit_at ic s (a @ b) i \<longleftrightarrow> lit_at ic s a i \<and> lit_at ic s b (i + length a)"
proof -
  define t where "t = drop i s"
  define x where "x = take (length a) t"
  define y where "y = take (length b) (drop (length a) t)"
  define f where "f = (if ic then lower else (\<lambda>u. u))"
  have fl: "\<And>u. length (f u) = length u" by (simp add: f_def lower_def)
  have fa: "\<And>u v. f (u @ v) = f u @ f v" by (simp add: f_def lower_def)
  have tk: "take (length (a @ b)) t = x @ y" by (simp add: x_def y_def take_add)
  have d: "drop (i + length a) s = drop (length a) t" by (simp add: t_def add.commute)
  have "lit_at ic s (a @ b) i \<longleftrightarrow> f (x @ y) = f (a @ b)"
    using tk by (simp add: lit_at_def t_def[symmetric] f_def)
  then have 1: "lit_at ic s (a @ b) i \<longleftrightarrow> f x @ f y = f a @ f b"
    by (simp only: fa)
  have 2: "lit_at ic s a i \<longleftrightarrow> f x = f a"
    by (simp add: lit_at_def t_def[symmetric] x_def f_def)
  have 3: "lit_at ic s b (i + length a) \<longleftrightarrow> f y = f b"
    by (simp add: lit_at_def d y_def f_def)
  have "f x @ f y = f a @ f b \<longleftrightarrow> f x = f a \<and> f y = f b"
  proof (cases "length x = length a")
    case True
    then show ?thesis using fl by simp
  next
    case False
    then have short: "length t < length a" by (simp add: x_def)
    then have "y = []" by (simp add: y_def)
    moreover have "length x < length a" using short by (simp add: x_def)
    ultimately have lt: "length (f x @ f y) < length (f a @ f b)" using fl by simp
    have "f x @ f y \<noteq> f a @ f b"
    proof
      assume "f x @ f y = f a @ f b"
      then have "length (f x @ f y) = length (f a @ f b)" by (rule arg_cong)
      then show False using lt by linarith
    qed
    moreover have "f x \<noteq> f a" using False fl by metis
    ultimately show ?thesis by simp
  qed
  then show ?thesis using 1 2 3 by simp
qed

subsection \<open>Character classes\<close>

lemma upper_not_space: "is_upper c \<Longrightarrow> \<not> is_space c"
  by (auto simp: is_upper_def is_space_def Let_def)

lemma space_not_word: "is_space c \<Longrightarrow> \<not> is_word c"
proof -
  assume a: "is_space c"
  have "c \<noteq> CHR ''_''" using a by (auto simp: is_space_def Let_def)
  then show ?thesis
    using a by (auto simp: is_space_def is_word_def is_upper_def is_lower_def is_digit_def
        is_latin_alnum_def Let_def)
qed

lemma digit_not_space: "is_digit c \<Longrightarrow> \<not> is_space c"
  by (auto simp: is_digit_def is_space_def Let_def)

lemma of_char_lower_char:
  "of_char (lower_char c) = (if is_upper c \<or> is_latin_upper c then of_char c + 32 else (of_char c :: nat))"
  by (auto simp: lower_char_def is_upper_def is_latin_upper_def Let_def)

lemma of_char_upper_char:
  "of_char (upper_char c) = (if is_lower c \<or> is_latin_lower c then of_char c - 32 else (of_char c :: nat))"
proof (cases "is_lower c \<or> is_latin_lower c")
  case True
  then have "(of_char c :: nat) - 32 < 256" using of_char_mod_256[of c]
    by (metis less_imp_diff_less mod_less_divisor zero_less_numeral)
  then show ?thesis using True by (simp add: upper_char_def)
next
  case False
  then show ?thesis by (simp add: upper_char_def)
qed

lemma cls_at_Space: "cls_at ic Space c = is_space c"
proof (cases ic)
  case False
  then show ?thesis by (simp add: cls_at_def)
next
  case True
  have "is_space (lower_char c) = is_space c"
    unfolding is_space_def Let_def of_char_lower_char
    by (auto simp: is_upper_def is_latin_upper_def Let_def)
  moreover have "is_space (upper_char c) = is_space c"
    unfolding is_space_def Let_def of_char_upper_char
    by (auto simp: is_lower_def is_latin_lower_def Let_def)
  ultimately show ?thesis using True by (simp add: cls_at_def)
qed

subsection \<open>A group between two word boundaries\<close>

lemma later_cap_simps [simp]:
  "later_cap c None = c" "later_cap c (Some x) = Some x"
  by (simp_all add: later_cap_def)

lemma in_ms_bounded_group:
  "(j, c) \<in> set (ms ic s (Seq WordB (Seq (Grp r) WordB)) i) \<longleftrightarrow>
   word_boundary s i \<and> (\<exists>c'. (j, c') \<in> set (ms ic s r i)) \<and> word_boundary s j \<and> c = Some (i, j)"
proof
  assume "(j, c) \<in> set (ms ic s (Seq WordB (Seq (Grp r) WordB)) i)"
  then obtain j1 c1 c1' where a: "(j1, c1) \<in> set (ms ic s WordB i)"
    "(j, c1') \<in> set (ms ic s (Seq (Grp r) WordB) j1)" "c = later_cap c1 c1'"
    unfolding in_ms_Seq[of j c ic s WordB] by blast
  from a(1) have 1: "word_boundary s i" "j1 = i" "c1 = None" unfolding in_ms_WordB by simp_all
  from a(2) obtain j2 c2 c2' where b: "(j2, c2) \<in> set (ms ic s (Grp r) j1)"
    "(j, c2') \<in> set (ms ic s WordB j2)" "c1' = later_cap c2 c2'"
    unfolding in_ms_Seq by blast
  from b(2) have 2: "word_boundary s j2" "j = j2" "c2' = None" unfolding in_ms_WordB by simp_all
  from b(1) have 3: "\<exists>c'. (j2, c') \<in> set (ms ic s r j1)" "c2 = Some (j1, j2)"
    unfolding in_ms_Grp by simp_all
  show "word_boundary s i \<and> (\<exists>c'. (j, c') \<in> set (ms ic s r i)) \<and> word_boundary s j \<and> c = Some (i, j)"
    using 1 2 3 a(3) b(3) by simp
next
  assume h: "word_boundary s i \<and> (\<exists>c'. (j, c') \<in> set (ms ic s r i)) \<and> word_boundary s j \<and>
    c = Some (i, j)"
  have 1: "(i, None) \<in> set (ms ic s WordB i)" using h unfolding in_ms_WordB by simp
  have 2: "(j, Some (i, j)) \<in> set (ms ic s (Grp r) i)" using h unfolding in_ms_Grp by simp
  have 3: "(j, None) \<in> set (ms ic s WordB j)" using h unfolding in_ms_WordB by simp
  have "(j, later_cap (Some (i, j)) None) \<in> set (ms ic s (Seq (Grp r) WordB) i)"
    unfolding in_ms_Seq using 2 3 by blast
  then have 4: "(j, Some (i, j)) \<in> set (ms ic s (Seq (Grp r) WordB) i)" by simp
  have "(j, later_cap None (Some (i, j))) \<in> set (ms ic s (Seq WordB (Seq (Grp r) WordB)) i)"
    unfolding in_ms_Seq[of j _ ic s WordB] using 1 4 by blast
  then show "(j, c) \<in> set (ms ic s (Seq WordB (Seq (Grp r) WordB)) i)" using h by simp
qed

lemma ends_Lit: "ends ic s (Lit l) i = (if lit_at ic s l i then {i + length l} else {})"
proof (rule set_eqI)
  fix j
  show "j \<in> ends ic s (Lit l) i \<longleftrightarrow> j \<in> (if lit_at ic s l i then {i + length l} else {})"
    unfolding ends_iff in_ms_Lit by simp
qed

lemma ends_Alt: "ends ic s (Alt a b) i = ends ic s a i \<union> ends ic s b i"
proof (rule set_eqI)
  fix j
  show "j \<in> ends ic s (Alt a b) i \<longleftrightarrow> j \<in> ends ic s a i \<union> ends ic s b i"
    unfolding Un_iff ends_iff in_ms_Alt by blast
qed

lemma ends_Seq: "ends ic s (Seq a b) i = (\<Union>j\<in>ends ic s a i. ends ic s b j)"
proof (rule set_eqI)
  fix k
  show "k \<in> ends ic s (Seq a b) i \<longleftrightarrow> k \<in> (\<Union>j\<in>ends ic s a i. ends ic s b j)"
  proof
    assume "k \<in> ends ic s (Seq a b) i"
    then obtain j c c' where "(j, c) \<in> set (ms ic s a i)" "(k, c') \<in> set (ms ic s b j)"
      unfolding ends_iff in_ms_Seq by blast
    then have "j \<in> ends ic s a i" "k \<in> ends ic s b j" unfolding ends_iff by blast+
    then show "k \<in> (\<Union>j\<in>ends ic s a i. ends ic s b j)" by blast
  next
    assume "k \<in> (\<Union>j\<in>ends ic s a i. ends ic s b j)"
    then obtain j where "j \<in> ends ic s a i" "k \<in> ends ic s b j" by blast
    then obtain c c' where "(j, c) \<in> set (ms ic s a i)" "(k, c') \<in> set (ms ic s b j)"
      unfolding ends_iff by blast
    then show "k \<in> ends ic s (Seq a b) i" unfolding ends_iff in_ms_Seq by blast
  qed
qed

lemma ends_Opt: "ends ic s (Opt a) i = insert i (ends ic s a i)"
proof (rule set_eqI)
  fix k
  show "k \<in> ends ic s (Opt a) i \<longleftrightarrow> k \<in> insert i (ends ic s a i)"
    unfolding insert_iff ends_iff in_ms_Opt by blast
qed

lemma ends_Grp: "ends ic s (Grp a) i = ends ic s a i"
proof (rule set_eqI)
  fix k
  show "k \<in> ends ic s (Grp a) i \<longleftrightarrow> k \<in> ends ic s a i"
    unfolding ends_iff in_ms_Grp by blast
qed

lemma ends_hosting_alternatives:
  "j \<in> ends True s (Alt (seqs [Lit ''co'', Opt (Lit ''-''), Lit ''hosted'']) (Lit ''hosted'')) i
   \<longleftrightarrow>
   (lit_at True s ''hosted'' i \<and> j = i + 6) \<or>
   (lit_at True s ''cohosted'' i \<and> j = i + 8) \<or>
   (lit_at True s ''co-hosted'' i \<and> j = i + 9)"
proof -
  have a: "lit_at True s ''cohosted'' i \<longleftrightarrow> lit_at True s ''co'' i \<and> lit_at True s ''hosted'' (i + 2)"
    using lit_at_append[of True s "''co''" "''hosted''" i] by (simp add: eval_nat_numeral)
  have b: "lit_at True s ''co-hosted'' i \<longleftrightarrow>
      lit_at True s ''co'' i \<and> lit_at True s ''-'' (i + 2) \<and> lit_at True s ''hosted'' (i + 3)"
    using lit_at_append[of True s "''co''" "''-hosted''" i]
      lit_at_append[of True s "''-''" "''hosted''" "i + 2"] by (simp add: eval_nat_numeral)
  have "j \<in> ends True s (Alt (seqs [Lit ''co'', Opt (Lit ''-''), Lit ''hosted'']) (Lit ''hosted'')) i
    \<longleftrightarrow>
    (lit_at True s ''co'' i \<and>
       ((lit_at True s ''-'' (i + 2) \<and> lit_at True s ''hosted'' (i + 3) \<and> j = i + 9) \<or>
        (lit_at True s ''hosted'' (i + 2) \<and> j = i + 8))) \<or>
    (lit_at True s ''hosted'' i \<and> j = i + 6)"
    by (auto simp: ends_Alt ends_Seq ends_Opt ends_Lit eval_nat_numeral)
  then show ?thesis unfolding a b by blast
qed

lemma hosting_verb_match:
  "(\<exists>j c. (j, c) \<in> set (ms True s rx_hosting i)) \<longleftrightarrow> hosting_verb_at s i"
proof -
  let ?alts = "Alt (seqs [Lit ''co'', Opt (Lit ''-''), Lit ''hosted'']) (Lit ''hosted'')"
  have "(\<exists>j c. (j, c) \<in> set (ms True s rx_hosting i)) \<longleftrightarrow>
        (\<exists>j. word_boundary s i \<and> j \<in> ends True s ?alts i \<and> word_boundary s j)"
    unfolding rx_hosting_def seqs.simps in_ms_bounded_group ends_iff by blast
  also have "\<dots> \<longleftrightarrow> hosting_verb_at s i"
    unfolding ends_hosting_alternatives hosting_verb_at_def by blast
  finally show ?thesis .
qed

subsection \<open>The causal patterns\<close>

lemma causal_due_to:
  assumes "lit_at True s ''due to'' i" and "word_boundary s i" and "word_boundary s (i + 6)"
  shows "(i + 6, Some (i, i + 6)) \<in> set (ms True s rx_causal i)"
proof -
  have "i + 6 \<in> ends True s
      (alts [Lit ''because'', Lit ''due to'', Lit ''following'', Lit ''as a result'']) i"
    using assms(1) by (simp add: ends_Alt ends_Lit)
  then show ?thesis
    unfolding rx_causal_def seqs.simps in_ms_bounded_group ends_iff using assms(2,3) by simp
qed

lemma due_to_match:
  assumes "(j, c) \<in> set (ms True s rx_due_to i)"
  shows "lit_at True s ''due to'' i \<and> i + 6 < length s \<and> is_space (s ! (i + 6)) \<and>
         (\<exists>a b. c = Some (a, b))"
proof -
  from assms obtain j1 c1 c1' where a: "(j1, c1) \<in> set (ms True s (Lit ''due to'') i)"
    "(j, c1') \<in> set (ms True s
        (Seq (Plus (Cls Space)) (Seq (Grp (LazyStar (Cls AnyChar))) (Alt (Lit ''.'') Eos))) j1)"
    "c = later_cap c1 c1'"
    unfolding rx_due_to_def seqs.simps in_ms_Seq[of j c True s "Lit ''due to''"] by blast
  from a(1) have 1: "lit_at True s ''due to'' i" "j1 = i + 6" unfolding in_ms_Lit by simp_all
  from a(2) obtain j2 c2 c2' where b: "(j2, c2) \<in> set (ms True s (Plus (Cls Space)) j1)"
    "(j, c2') \<in> set (ms True s (Seq (Grp (LazyStar (Cls AnyChar))) (Alt (Lit ''.'') Eos)) j2)"
    "c1' = later_cap c2 c2'"
    unfolding in_ms_Seq[of j c1' True s "Plus (Cls Space)"] by blast
  from b(1) obtain j3 c3 where "(j3, c3) \<in> set (ms True s (Cls Space) j1)"
    unfolding in_ms_Plus by blast
  then have 2: "j1 < length s" "is_space (s ! j1)" unfolding in_ms_Cls cls_at_Space by simp_all
  from b(2) obtain j4 c4 c4' where d: "(j4, c4) \<in> set (ms True s (Grp (LazyStar (Cls AnyChar))) j2)"
    "(j, c4') \<in> set (ms True s (Alt (Lit ''.'') Eos) j4)" "c2' = later_cap c4 c4'"
    unfolding in_ms_Seq by blast
  from d(1) have 3: "c4 = Some (j2, j4)" unfolding in_ms_Grp by simp
  have "no_grp (Alt (Lit ''.'') Eos)" by simp
  from ms_no_cap[OF this d(2)] have 4: "c4' = None" .
  have "c = Some (j2, j4)" using a(3) b(3) d(3) 3 4 by simp
  then show ?thesis using 1 2 by simp
qed

lemma lit_at_nth:
  assumes "lit_at True s l i" and "k < length l"
  shows "i + k < length s \<and> lower_char (s ! (i + k)) = lower_char (l ! k)"
proof -
  have ne: "l \<noteq> []" using assms(2) by auto
  from lit_at_bound[OF ne assms(1)] have b: "i + length l \<le> length s" .
  have "lower (take (length l) (drop i s)) = lower l" using assms(1) by (simp add: lit_at_def)
  then have "lower (take (length l) (drop i s)) ! k = lower l ! k" by simp
  moreover have "k < length (take (length l) (drop i s))" using b assms(2) by simp
  ultimately have "lower_char (take (length l) (drop i s) ! k) = lower_char (l ! k)"
    using assms(2) by (simp add: lower_def)
  then show ?thesis using b assms(2) by simp
qed

lemma lower_char_word:
  assumes "is_lower d" and "lower_char c = d"
  shows "is_word c"
proof (cases "is_upper c \<or> is_latin_upper c")
  case False
  then have "c = d" using assms(2) by (simp add: lower_char_def)
  then show ?thesis using assms(1) by (simp add: is_word_def)
next
  case True
  show ?thesis
  proof (cases "is_upper c")
    case True
    then show ?thesis by (simp add: is_word_def)
  next
    case False
    then have l: "is_latin_upper c" using True by simp
    have "of_char d = (of_char c :: nat) + 32"
      using assms(2)[symmetric] l by (simp add: of_char_lower_char)
    then show ?thesis using assms(1) l by (auto simp: is_lower_def is_latin_upper_def Let_def)
  qed
qed

lemma due_to_word_edges:
  assumes "lit_at True s ''due to'' i"
  shows "word_after s i" and "word_before s (i + 6)"
proof -
  have lc: "lower_char CHR ''d'' = CHR ''d''" "lower_char CHR ''o'' = CHR ''o''"
    by (simp_all add: lower_char_def is_upper_def is_latin_upper_def)
  from lit_at_nth[OF assms, of 0] have 0: "i < length s" "lower_char (s ! i) = CHR ''d''"
    by (simp_all add: lc)
  from lit_at_nth[OF assms, of 5] have 5: "i + 5 < length s" "lower_char (s ! (i + 5)) = CHR ''o''"
    by (simp_all add: lc)
  have "is_lower CHR ''d''" "is_lower CHR ''o''" by (simp_all add: is_lower_def)
  then have "is_word (s ! i)" "is_word (s ! (i + 5))"
    using lower_char_word 0(2) 5(2) by blast+
  then show "word_after s i" and "word_before s (i + 6)"
    using 0(1) 5(1) by (simp_all add: word_after_def word_before_def add.commute)
qed

lemma due_to_unbounded:
  assumes "re_search True rx_causal s = None" and "re_search True rx_due_to s = Some m"
  shows "lit_at True s ''due to'' (m_start m) \<and> \<not> word_boundary s (m_start m) \<and>
         (\<exists>g. group1 s m = Some g)"
proof -
  define i where "i = m_start m"
  note rs = re_search_Some[OF assms(2)]
  from due_to_match[OF rs(2)] obtain a b where
    d: "lit_at True s ''due to'' i" "i + 6 < length s" "is_space (s ! (i + 6))" "m_cap m = Some (a, b)"
    unfolding i_def by blast
  have after: "\<not> word_after s (i + 6)" using d(3) space_not_word by (simp add: word_after_def)
  have wb6: "word_boundary s (i + 6)"
    using due_to_word_edges(2)[OF d(1)] after by (simp add: word_boundary_def)
  have "\<not> word_boundary s i"
  proof
    assume "word_boundary s i"
    from causal_due_to[OF d(1) this wb6] have "ms True s rx_causal i \<noteq> []" by auto
    moreover have "i \<le> length s" using d(2) by simp
    ultimately show False using assms(1) unfolding re_search_None by blast
  qed
  then show ?thesis using d(1,4) unfolding i_def by (simp add: group1_def)
qed

subsection \<open>The host phrase\<close>

lemma later_cap_None [simp]: "later_cap None c = c"
  by (cases c) (simp_all add: later_cap_def)

lemma seq_skip:
  assumes "no_grp a" and "i \<le> length s" and "(j, c) \<in> set (ms ic s (Seq a b) i)"
  shows "\<exists>k. k \<le> length s \<and> (j, c) \<in> set (ms ic s b k)"
proof -
  from assms(3) obtain k c1 c2 where
    k: "(k, c1) \<in> set (ms ic s a i)" "(j, c2) \<in> set (ms ic s b k)" "c = later_cap c1 c2"
    unfolding in_ms_Seq by blast
  from ms_no_cap[OF assms(1) k(1)] have "c1 = None" .
  with k(3) have "c = c2" by simp
  moreover from ms_range[OF assms(2) k(1)] have "k \<le> length s" by simp
  ultimately show ?thesis using k(2) by blast
qed

lemma seq_tail_no_grp:
  assumes "no_grp b" and "(j, c) \<in> set (ms ic s (Seq a b) i)"
  shows "\<exists>k. (k, c) \<in> set (ms ic s a i)"
proof -
  from assms(2) obtain k c1 c2 where
    k: "(k, c1) \<in> set (ms ic s a i)" "(j, c2) \<in> set (ms ic s b k)" "c = later_cap c1 c2"
    unfolding in_ms_Seq by blast
  from ms_no_cap[OF assms(1) k(2)] have "c2 = None" .
  with k(3) have "c = c1" by simp
  then show ?thesis using k(1) by blast
qed

lemma host_phrase_capture:
  assumes "i \<le> length s" and "(k, c) \<in> set (ms False s rx_host_phrase i)"
  shows "c = Some (i, k) \<and> i < k \<and> k \<le> length s \<and> is_upper (s ! i)"
proof -
  let ?body = "Seq (Cls Upper) (LazyStar (Cls (NoneOf ''.,'')))"
  from assms(2) obtain c' where c: "c = Some (i, k)" "(k, c') \<in> set (ms False s ?body i)"
    unfolding rx_host_phrase_def in_ms_Grp by blast
  from c(2) obtain j c1 c2 where
    j: "(j, c1) \<in> set (ms False s (Cls Upper) i)"
       "(k, c2) \<in> set (ms False s (LazyStar (Cls (NoneOf ''.,''))) j)"
    unfolding in_ms_Seq by blast
  from j(1) have u: "i < length s" "cls_at False Upper (s ! i)" "j = Suc i"
    unfolding in_ms_Cls by simp_all
  from u(1,3) have "j \<le> length s" by simp
  from ms_range[OF this j(2)] have "j \<le> k" "k \<le> length s" by simp_all
  with u c(1) show ?thesis by (simp add: cls_at_def)
qed

lemma hosted_by_capture:
  assumes "i \<le> length s" and "(j, c) \<in> set (ms False s rx_hosted_by i)"
  shows "\<exists>a b. c = Some (a, b) \<and> a < b \<and> b \<le> length s \<and> is_upper (s ! a)"
proof -
  let ?tail = "Seq (Star (Cls Space)) rx_clause_end"
  have t: "no_grp ?tail" by (simp add: rx_clause_end_def)
  from assms(2) have
    "(j, c) \<in> set (ms False s (Seq (Lit ''hosted'') (Seq (Plus (Cls Space)) (Seq (Lit ''by'')
        (Seq (Plus (Cls Space)) (Seq rx_host_phrase ?tail))))) i)"
    by (simp only: rx_hosted_by_def seqs.simps)
  from seq_skip[OF _ assms(1) this] obtain k1 where k1: "k1 \<le> length s"
    "(j, c) \<in> set (ms False s (Seq (Plus (Cls Space)) (Seq (Lit ''by'')
        (Seq (Plus (Cls Space)) (Seq rx_host_phrase ?tail)))) k1)" by auto
  from seq_skip[OF _ k1] obtain k2 where k2: "k2 \<le> length s"
    "(j, c) \<in> set (ms False s (Seq (Lit ''by'')
        (Seq (Plus (Cls Space)) (Seq rx_host_phrase ?tail))) k2)" by auto
  from seq_skip[OF _ k2] obtain k3 where k3: "k3 \<le> length s"
    "(j, c) \<in> set (ms False s (Seq (Plus (Cls Space)) (Seq rx_host_phrase ?tail)) k3)" by auto
  from seq_skip[OF _ k3] obtain k4 where k4: "k4 \<le> length s"
    "(j, c) \<in> set (ms False s (Seq rx_host_phrase ?tail) k4)" by auto
  from seq_tail_no_grp[OF t k4(2)] obtain k where "(k, c) \<in> set (ms False s rx_host_phrase k4)"
    by blast
  from host_phrase_capture[OF k4(1) this] show ?thesis by blast
qed

lemma cohosted_by_capture:
  assumes "i \<le> length s" and "(j, c) \<in> set (ms False s rx_cohosted_by i)"
  shows "\<exists>a b. c = Some (a, b) \<and> a < b \<and> b \<le> length s \<and> is_upper (s ! a)"
proof -
  let ?tail = "Seq (Star (Cls Space)) rx_clause_end"
  have t: "no_grp ?tail" by (simp add: rx_clause_end_def)
  from assms(2) have
    "(j, c) \<in> set (ms False s (Seq (Lit ''co'') (Seq (Opt (Lit ''-'')) (Seq (Lit ''hosted'')
        (Seq (Plus (Cls Space)) (Seq (Lit ''by'')
        (Seq (Plus (Cls Space)) (Seq rx_host_phrase ?tail))))))) i)"
    by (simp only: rx_cohosted_by_def seqs.simps)
  from seq_skip[OF _ assms(1) this] obtain k5 where k5: "k5 \<le> length s"
    "(j, c) \<in> set (ms False s (Seq (Opt (Lit ''-'')) (Seq (Lit ''hosted'')
        (Seq (Plus (Cls Space)) (Seq (Lit ''by'')
        (Seq (Plus (Cls Space)) (Seq rx_host_phrase ?tail)))))) k5)" by auto
  from seq_skip[OF _ k5] obtain k0 where k0: "k0 \<le> length s"
    "(j, c) \<in> set (ms False s (Seq (Lit ''hosted'')
        (Seq (Plus (Cls Space)) (Seq (Lit ''by'')
        (Seq (Plus (Cls Space)) (Seq rx_host_phrase ?tail))))) k0)" by auto
  from seq_skip[OF _ k0] obtain k1 where k1: "k1 \<le> length s"
    "(j, c) \<in> set (ms False s (Seq (Plus (Cls Space)) (Seq (Lit ''by'')
        (Seq (Plus (Cls Space)) (Seq rx_host_phrase ?tail)))) k1)" by auto
  from seq_skip[OF _ k1] obtain k2 where k2: "k2 \<le> length s"
    "(j, c) \<in> set (ms False s (Seq (Lit ''by'')
        (Seq (Plus (Cls Space)) (Seq rx_host_phrase ?tail))) k2)" by auto
  from seq_skip[OF _ k2] obtain k3 where k3: "k3 \<le> length s"
    "(j, c) \<in> set (ms False s (Seq (Plus (Cls Space)) (Seq rx_host_phrase ?tail)) k3)" by auto
  from seq_skip[OF _ k3] obtain k4 where k4: "k4 \<le> length s"
    "(j, c) \<in> set (ms False s (Seq rx_host_phrase ?tail) k4)" by auto
  from seq_tail_no_grp[OF t k4(2)] obtain k where "(k, c) \<in> set (ms False s rx_host_phrase k4)"
    by blast
  from host_phrase_capture[OF k4(1) this] show ?thesis by blast
qed

lemma host_match_capture:
  assumes "host_match s = Some m"
  shows "\<exists>a b. m_cap m = Some (a, b) \<and> a < b \<and> b \<le> length s \<and> is_upper (s ! a)"
proof (cases "re_search False rx_cohosted_by s")
  case None
  with assms have m: "re_search False rx_hosted_by s = Some m" by (simp add: host_match_def)
  from hosted_by_capture[OF re_search_Some(1,2)[OF m]] show ?thesis .
next
  case (Some m')
  with assms have "m' = m" by (simp add: host_match_def)
  with Some have m: "re_search False rx_cohosted_by s = Some m" by simp
  from cohosted_by_capture[OF re_search_Some(1,2)[OF m]] show ?thesis .
qed

lemma substr_hd:
  assumes "a < b" and "b \<le> length s"
  shows "substr s a b \<noteq> [] \<and> hd (substr s a b) = s ! a"
proof -
  from assms have "a < length s" by simp
  then have "drop a s = s ! a # drop (Suc a) s" by (simp add: Cons_nth_drop_Suc)
  moreover from assms(1) obtain n where "b - a = Suc n" by (cases "b - a") simp_all
  ultimately show ?thesis by (simp add: substr_def)
qed

lemma host_match_group:
  assumes "host_match s = Some m"
  shows "\<exists>g. group1 s m = Some g \<and> strip g \<noteq> []"
proof -
  from host_match_capture[OF assms] obtain a b where
    c: "m_cap m = Some (a, b)" "a < b" "b \<le> length s" "is_upper (s ! a)" by blast
  from substr_hd[OF c(2,3)] c(4) have "substr s a b \<noteq> []" "\<not> is_space (hd (substr s a b))"
    by (simp_all add: upper_not_space)
  then have "strip (substr s a b) \<noteq> []" by (rule strip_nonempty)
  then show ?thesis using c(1) by (simp add: group1_def)
qed

lemma host_phrase_Some:
  assumes "host_phrase s = Some h"
  shows "\<exists>m. host_match s = Some m \<and> group1_stripped s m = Inr h \<and> h \<noteq> []"
proof (cases "host_match s")
  case None
  with assms show ?thesis by (simp add: host_phrase_def)
next
  case (Some m)
  from host_match_group[OF Some] obtain g where g: "group1 s m = Some g" "strip g \<noteq> []" by blast
  with assms Some have "h = strip g" by (simp add: host_phrase_def)
  with g Some show ?thesis by (simp add: group1_stripped_def)
qed

lemma host_phrase_None:
  assumes "host_phrase s = None"
  shows "host_match s = None"
proof (cases "host_match s")
  case None
  then show ?thesis .
next
  case (Some m)
  from host_match_group[OF Some] obtain g where "group1 s m = Some g" by blast
  with assms Some show ?thesis by (simp add: host_phrase_def)
qed

lemma first_date_Some:
  assumes "first_date s = Some d"
  shows "\<exists>m. re_search False MONTH_RE s = Some m \<and> strip (group0 s m) = d \<and> d \<noteq> [] \<and>
             is_digit (last d)"
proof -
  from assms obtain m where m: "re_search False MONTH_RE s = Some m" "d = group0 s m"
    by (auto simp: first_date_def)
  from re_search_plain_Some[OF plain_MONTH_RE m(1)] have "d \<in> lang MONTH_RE"
    unfolding m(2) group0_def by simp
  from lang_MONTH_RE_shape[OF this] have sh: "d \<noteq> []" "is_upper (hd d)" "is_digit (last d)"
    by simp_all
  then have "strip d = d" by (intro strip_id) (simp_all add: upper_not_space digit_not_space)
  with m sh show ?thesis by simp
qed

lemma first_date_None: "first_date s = None \<longleftrightarrow> re_search False MONTH_RE s = None"
  by (simp add: first_date_def)

lemma hosting_verb_search:
  "re_search True rx_hosting s \<noteq> None \<longleftrightarrow> (\<exists>i. hosting_verb_at s i)"
proof
  assume "re_search True rx_hosting s \<noteq> None"
  then obtain i where "i \<le> length s" "ms True s rx_hosting i \<noteq> []"
    unfolding re_search_None by blast
  then obtain j c where "(j, c) \<in> set (ms True s rx_hosting i)"
    by (cases "ms True s rx_hosting i") auto
  then have "hosting_verb_at s i" using hosting_verb_match[of s i] by blast
  then show "\<exists>i. hosting_verb_at s i" ..
next
  assume "\<exists>i. hosting_verb_at s i"
  then obtain i where i: "hosting_verb_at s i" ..
  then have "lit_at True s ''hosted'' i \<or> lit_at True s ''cohosted'' i \<or>
             lit_at True s ''co-hosted'' i" by (auto simp: hosting_verb_at_def)
  then have "i \<le> length s"
    using lit_at_bound[of "''hosted''" True s i] lit_at_bound[of "''cohosted''" True s i]
      lit_at_bound[of "''co-hosted''" True s i] by auto
  moreover from i obtain j c where "(j, c) \<in> set (ms True s rx_hosting i)"
    using hosting_verb_match[of s i] by blast
  ultimately show "re_search True rx_hosting s \<noteq> None" by (rule re_search_found)
qed

lemma date_search:
  "re_search False MONTH_RE s \<noteq> None \<longleftrightarrow>
   (\<exists>i j. i \<le> j \<and> j \<le> length s \<and> substr s i j \<in> lang MONTH_RE)"
  unfolding re_search_plain_None[OF plain_MONTH_RE] by blast

lemma host_and_date_period:
  assumes "d \<noteq> []" and "is_digit (last d)"
  shows "ensure_period (h @ '', '' @ d) = h @ '', '' @ d @ ''.''"
proof -
  have "h @ '', '' @ d \<noteq> []" "last (h @ '', '' @ d) = last d" using assms(1) by simp_all
  with assms(2) have "ensure_period (h @ '', '' @ d) = (h @ '', '' @ d) @ ''.''"
    by (intro ensure_period_digit) simp_all
  then show ?thesis by simp
qed

lemma host_date_rule_both:
  assumes "re_search True rx_hosting s = None \<or> re_search False MONTH_RE s = None"
    and "host_phrase s = Some h" and "first_date s = Some d"
  shows "host_date_rule s = Inr (Some (h @ '', '' @ d @ ''.''))"
proof -
  from host_phrase_Some[OF assms(2)] obtain m where
    m: "host_match s = Some m" "group1_stripped s m = Inr h" "h \<noteq> []" by blast
  from first_date_Some[OF assms(3)] obtain m' where
    d: "re_search False MONTH_RE s = Some m'" "strip (group0 s m') = d" "d \<noteq> []"
       "is_digit (last d)" by blast
  from assms(1) d(1) have v: "re_search True rx_hosting s = None" by simp
  show ?thesis
    unfolding host_date_rule_def using v m d host_and_date_period[OF d(3,4), of h]
    by (simp add: Let_def)
qed

lemma host_date_rule_host:
  assumes "host_phrase s = Some h" and "first_date s = None"
  shows "host_date_rule s = Inr (Some h)"
proof -
  from host_phrase_Some[OF assms(1)] obtain m where
    m: "host_match s = Some m" "group1_stripped s m = Inr h" "h \<noteq> []" by blast
  from assms(2) have d: "re_search False MONTH_RE s = None" by (simp add: first_date_None)
  show ?thesis unfolding host_date_rule_def using m d by (simp add: Let_def)
qed

lemma host_date_rule_date:
  assumes "re_search True rx_hosting s = None"
    and "host_phrase s = None" and "first_date s = Some d"
  shows "host_date_rule s = Inr (Some d)"
proof -
  from host_phrase_None[OF assms(2)] have m: "host_match s = None" .
  from first_date_Some[OF assms(3)] obtain m' where
    d: "re_search False MONTH_RE s = Some m'" "strip (group0 s m') = d" "d \<noteq> []" by blast
  show ?thesis unfolding host_date_rule_def using assms(1) m d by (simp add: Let_def)
qed

lemma extract_combined_case:
  assumes "asks_host_and_date (lower question)" and "host_date_rule (strip sentence) = Inr (Some a)"
  shows "extract_short_answer sentence qtype question = Inr a"
  using assms by (simp add: extract_short_answer_def Let_def)

subsection \<open>Dates\<close>

text \<open>
  C8, as amended: when the combined host and date case does not fire and the question type
  is \<^verbatim>\<open>DATE\<close>, the extractor returns the first substring of the trimmed sentence that
  matches the date pattern (no match starts further left) if there is one, and the trimmed
  sentence otherwise. The claim as stated fails only in that the sentence is trimmed first:
  a sentence without a date that begins or ends with white space is not returned unmodified.
\<close>

theorem date_extraction:
  assumes "\<not> asks_host_and_date (lower question) \<or> host_date_rule (strip sentence) = Inr None"
  shows "let s = strip sentence in
    ((\<exists>i j. i \<le> j \<and> j \<le> length s \<and> substr s i j \<in> lang MONTH_RE) \<longrightarrow>
       (\<exists>i j. i \<le> j \<and> j \<le> length s \<and> substr s i j \<in> lang MONTH_RE \<and>
              (\<forall>i' j'. i' < i \<and> i' \<le> j' \<and> j' \<le> length s \<longrightarrow> substr s i' j' \<notin> lang MONTH_RE) \<and>
              extract_short_answer sentence ''DATE'' question = Inr (substr s i j))) \<and>
    ((\<forall>i j. i \<le> j \<and> j \<le> length s \<longrightarrow> substr s i j \<notin> lang MONTH_RE) \<longrightarrow>
       extract_short_answer sentence ''DATE'' question = Inr s)"
proof -
  define s where "s = strip sentence"
  have e: "extract_short_answer sentence ''DATE'' question = Inr (date_rule s)"
    unfolding extract_without_combined_case[OF assms] s_def by (simp add: type_cascade_def)
  have found: "\<exists>i j. i \<le> j \<and> j \<le> length s \<and> substr s i j \<in> lang MONTH_RE \<and>
              (\<forall>i' j'. i' < i \<and> i' \<le> j' \<and> j' \<le> length s \<longrightarrow> substr s i' j' \<notin> lang MONTH_RE) \<and>
              extract_short_answer sentence ''DATE'' question = Inr (substr s i j)"
    if "\<exists>i j. i \<le> j \<and> j \<le> length s \<and> substr s i j \<in> lang MONTH_RE"
  proof -
    from that have "re_search False MONTH_RE s \<noteq> None"
      using re_search_plain_None[OF plain_MONTH_RE, of s] by blast
    then obtain m where m: "re_search False MONTH_RE s = Some m" by auto
    have "date_rule s = substr s (m_start m) (m_end m)"
      using m by (simp add: date_rule_def group0_def)
    then have "extract_short_answer sentence ''DATE'' question =
        Inr (substr s (m_start m) (m_end m))" using e by simp
    then show ?thesis
      using re_search_plain_Some[OF plain_MONTH_RE m]
      by (intro exI[of _ "m_start m"] exI[of _ "m_end m"]) simp
  qed
  have none: "extract_short_answer sentence ''DATE'' question = Inr s"
    if "\<forall>i j. i \<le> j \<and> j \<le> length s \<longrightarrow> substr s i j \<notin> lang MONTH_RE"
  proof -
    from that have "re_search False MONTH_RE s = None"
      using re_search_plain_None[OF plain_MONTH_RE, of s] by blast
    then show ?thesis using e by (simp add: date_rule_def)
  qed
  show ?thesis
    unfolding Let_def s_def[symmetric]
  proof (intro conjI impI)
    assume "\<exists>i j. i \<le> j \<and> j \<le> length s \<and> substr s i j \<in> lang MONTH_RE"
    then show "\<exists>i j. i \<le> j \<and> j \<le> length s \<and> substr s i j \<in> lang MONTH_RE \<and>
              (\<forall>i' j'. i' < i \<and> i' \<le> j' \<and> j' \<le> length s \<longrightarrow> substr s i' j' \<notin> lang MONTH_RE) \<and>
              extract_short_answer sentence ''DATE'' question = Inr (substr s i j)"
      by (rule found)
  next
    assume "\<forall>i j. i \<le> j \<and> j \<le> length s \<longrightarrow> substr s i j \<notin> lang MONTH_RE"
    then show "extract_short_answer sentence ''DATE'' question = Inr s" by (rule none)
  qed
qed


lemma demo_date:
  "\<not> asks_host_and_date (lower ''When does it start?'')"
  "strip ''The tournament starts February 7, 2026.'' = ''The tournament starts February 7, 2026.''"
  "38 \<in> ends False ''The tournament starts February 7, 2026.'' MONTH_RE 22"
  "extract_short_answer ''The tournament starts February 7, 2026.'' ''DATE'' ''When does it start?''
     = Inr ''February 7, 2026''"
  by code_simp+

theorem date_extraction_witness:
  "\<not> asks_host_and_date (lower ''When does it start?'') \<and>
   substr ''The tournament starts February 7, 2026.'' 22 38 \<in> lang MONTH_RE \<and>
   (\<exists>i j. i \<le> j \<and> j \<le> length ''The tournament starts February 7, 2026.'' \<and>
      substr ''The tournament starts February 7, 2026.'' i j \<in> lang MONTH_RE \<and>
      extract_short_answer ''The tournament starts February 7, 2026.'' ''DATE''
        ''When does it start?'' = Inr (substr ''The tournament starts February 7, 2026.'' i j)) \<and>
   extract_short_answer ''The tournament starts February 7, 2026.'' ''DATE''
     ''When does it start?'' = Inr ''February 7, 2026''"
proof -
  define s where "s = ''The tournament starts February 7, 2026.''"
  have l: "length s = 39" by (simp add: s_def)
  have st: "strip s = s" unfolding s_def by (rule demo_date(2))
  have "\<exists>c. (38, c) \<in> set (ms False s MONTH_RE 22)"
    using demo_date(3) unfolding ends_iff s_def .
  then have m: "substr s 22 38 \<in> lang MONTH_RE"
    using ms_lang[OF plain_MONTH_RE, of 22 s 38] l by simp
  have ex: "\<exists>i j. i \<le> j \<and> j \<le> length s \<and> substr s i j \<in> lang MONTH_RE"
    using l m by (intro exI[of _ 22] exI[of _ 38]) simp
  have h: "\<not> asks_host_and_date (lower ''When does it start?'') \<or>
           host_date_rule (strip s) = (Inr None :: error + string option)"
    using demo_date(1) by simp
  from date_extraction[OF h] have
    "(\<exists>i j. i \<le> j \<and> j \<le> length s \<and> substr s i j \<in> lang MONTH_RE) \<longrightarrow>
       (\<exists>i j. i \<le> j \<and> j \<le> length s \<and> substr s i j \<in> lang MONTH_RE \<and>
              (\<forall>i' j'. i' < i \<and> i' \<le> j' \<and> j' \<le> length s \<longrightarrow> substr s i' j' \<notin> lang MONTH_RE) \<and>
              extract_short_answer s ''DATE'' ''When does it start?'' = Inr (substr s i j))"
    unfolding Let_def st by (rule conjunct1)
  with ex obtain i j where ij: "i \<le> j" "j \<le> length s" "substr s i j \<in> lang MONTH_RE"
      "extract_short_answer s ''DATE'' ''When does it start?'' = Inr (substr s i j)"
    by blast
  then have "\<exists>i j. i \<le> j \<and> j \<le> length s \<and> substr s i j \<in> lang MONTH_RE \<and>
      extract_short_answer s ''DATE'' ''When does it start?'' = Inr (substr s i j)"
    by blast
  then show ?thesis using demo_date(1,4) m unfolding s_def by (intro conjI)
qed

theorem date_extraction_unmodified_counterexample:
  "\<not> asks_host_and_date (lower ''When?'') \<and>
   first_date '' no date here '' = None \<and>
   extract_short_answer '' no date here '' ''DATE'' ''When?'' = Inr ''no date here''"
  by code_simp

subsection \<open>Reasons\<close>

text \<open>
  C9, as amended: when the combined host and date case does not fire and the question type
  is \<^verbatim>\<open>REASON\<close>, every sentence whose trimmed text holds ``due to'' (in any case of the
  letters) between two word boundaries yields the trimmed sentence with a final period, never
  the reconstructed form; and whenever the result is not the trimmed sentence with a final
  period, it is the reconstructed \<open>Because ....\<close> and the trimmed text holds ``due to'' at a
  place without a leading word boundary. The claim as stated fails only in that the sentence
  is trimmed first: the result is not the whole sentence when that begins or ends with white
  space.
\<close>

theorem reason_extraction_due_to:
  assumes "\<not> asks_host_and_date (lower question) \<or> host_date_rule (strip sentence) = Inr None"
  shows "let s = strip sentence; R = extract_short_answer sentence ''REASON'' question in
    ((\<exists>i. lit_at True s ''due to'' i \<and> word_boundary s i \<and> word_boundary s (i + 6)) \<longrightarrow>
       R = Inr (ensure_period s)) \<and>
    (R = Inr (ensure_period s) \<or>
     (\<exists>i phrase. lit_at True s ''due to'' i \<and> \<not> word_boundary s i \<and>
        R = Inr (ensure_period (''Because '' @ phrase))))"
proof -
  define s where "s = strip sentence"
  define R where "R = extract_short_answer sentence ''REASON'' question"
  have R: "R = reason_rule s"
    unfolding R_def extract_without_combined_case[OF assms] s_def by (simp add: type_cascade_def)
  have part1: "R = Inr (ensure_period s)"
    if "\<exists>i. lit_at True s ''due to'' i \<and> word_boundary s i \<and> word_boundary s (i + 6)"
  proof -
    from that obtain i where i: "lit_at True s ''due to'' i" "word_boundary s i"
      "word_boundary s (i + 6)" by blast
    have "i + length ''due to'' \<le> length s" using i(1) by (intro lit_at_bound) simp_all
    then have "i \<le> length s" by simp
    from re_search_found[OF this causal_due_to[OF i]] show ?thesis
      unfolding R by (simp add: reason_rule_def)
  qed
  have part2: "R = Inr (ensure_period s) \<or>
     (\<exists>i phrase. lit_at True s ''due to'' i \<and> \<not> word_boundary s i \<and>
        R = Inr (ensure_period (''Because '' @ phrase)))"
  proof (cases "re_search True rx_causal s")
    case (Some m)
    then show ?thesis unfolding R by (simp add: reason_rule_def)
  next
    case None
    show ?thesis
    proof (cases "re_search True rx_due_to s")
      case n: None
      then show ?thesis unfolding R using None by (simp add: reason_rule_def)
    next
      case (Some m)
      from due_to_unbounded[OF None Some] obtain g where
        g: "lit_at True s ''due to'' (m_start m)" "\<not> word_boundary s (m_start m)"
        "group1 s m = Some g" by blast
      have "R = Inr (ensure_period (''Because '' @ strip g))"
        unfolding R using None Some g(3) by (simp add: reason_rule_def group1_stripped_def)
      then show ?thesis using g(1,2) by blast
    qed
  qed
  show ?thesis
    unfolding Let_def s_def[symmetric] R_def[symmetric]
  proof (intro conjI impI)
    assume "\<exists>i. lit_at True s ''due to'' i \<and> word_boundary s i \<and> word_boundary s (i + 6)"
    then show "R = Inr (ensure_period s)" by (rule part1)
  next
    show "R = Inr (ensure_period s) \<or>
     (\<exists>i phrase. lit_at True s ''due to'' i \<and> \<not> word_boundary s i \<and>
        R = Inr (ensure_period (''Because '' @ phrase)))" by (rule part2)
  qed
qed

lemma demo_reason:
  "\<not> asks_host_and_date (lower ''Why?'')"
  "strip ''The match was off due to rain'' = ''The match was off due to rain''"
  "lit_at True ''The match was off due to rain'' ''due to'' 18"
  "word_boundary ''The match was off due to rain'' 18"
  "word_boundary ''The match was off due to rain'' (18 + 6)"
  "ensure_period ''The match was off due to rain'' = ''The match was off due to rain.''"
  by code_simp+

theorem reason_extraction_due_to_witness:
  "\<not> asks_host_and_date (lower ''Why?'') \<and>
   lit_at True ''The match was off due to rain'' ''due to'' 18 \<and>
   word_boundary ''The match was off due to rain'' 18 \<and>
   word_boundary ''The match was off due to rain'' (18 + 6) \<and>
   extract_short_answer ''The match was off due to rain'' ''REASON'' ''Why?'' =
     Inr ''The match was off due to rain.''"
proof -
  define s where "s = ''The match was off due to rain''"
  have h: "\<not> asks_host_and_date (lower ''Why?'') \<or>
           host_date_rule (strip s) = (Inr None :: error + string option)"
    using demo_reason(1) by simp
  have occ: "\<exists>i. lit_at True s ''due to'' i \<and> word_boundary s i \<and> word_boundary s (i + 6)"
    unfolding s_def using demo_reason(3,4,5) by blast
  from reason_extraction_due_to[OF h] have
    "(\<exists>i. lit_at True s ''due to'' i \<and> word_boundary s i \<and> word_boundary s (i + 6)) \<longrightarrow>
       extract_short_answer s ''REASON'' ''Why?'' = Inr (ensure_period s)"
    unfolding Let_def demo_reason(2)[folded s_def] by (rule conjunct1)
  with occ have "extract_short_answer s ''REASON'' ''Why?'' = Inr (ensure_period s)" by blast
  then show ?thesis using demo_reason unfolding s_def by simp
qed

theorem reason_extraction_whole_sentence_counterexample:
  "lit_at True ''  The match was off due to rain  '' ''due to'' 20 \<and>
   word_boundary ''  The match was off due to rain  '' 20 \<and>
   word_boundary ''  The match was off due to rain  '' 26 \<and>
   extract_short_answer ''  The match was off due to rain  '' ''REASON'' ''Why?'' =
     Inr ''The match was off due to rain.'' \<and>
   ensure_period ''  The match was off due to rain  '' = ''  The match was off due to rain  .''"
  by code_simp

subsection \<open>Host and date together\<close>

text \<open>
  C4, as amended: for every question whose lower-cased text contains ``host'' and also
  ``when'' or ``start'', whatever the question type, the extractor works on the trimmed
  sentence. When the trimmed sentence holds a hosting verb and a date, the result is the
  trimmed sentence with a final period ensured. Otherwise the result is \<open>host, date.\<close> when
  a host phrase and a date are both captured, the host phrase alone when only that is
  captured, and the date alone when only that is found. The claim as stated fails only in
  that the sentence is trimmed first: the result is not the sentence verbatim when that
  begins or ends with white space.
\<close>

theorem host_and_date_extraction:
  assumes "asks_host_and_date (lower question)"
  shows "let s = strip sentence; R = extract_short_answer sentence qtype question;
             verb = (\<exists>i. hosting_verb_at s i);
             dated = (\<exists>i j. i \<le> j \<and> j \<le> length s \<and> substr s i j \<in> lang MONTH_RE) in
    (verb \<and> dated \<longrightarrow> R = Inr (ensure_period s)) \<and>
    (\<not> (verb \<and> dated) \<longrightarrow>
       (\<forall>host date. host_phrase s = Some host \<and> first_date s = Some date \<longrightarrow>
          R = Inr (host @ '', '' @ date @ ''.'')) \<and>
       (\<forall>host. host_phrase s = Some host \<and> first_date s = None \<longrightarrow> R = Inr host) \<and>
       (\<forall>date. host_phrase s = None \<and> first_date s = Some date \<longrightarrow> R = Inr date))"
proof -
  define s where "s = strip sentence"
  define R where "R = extract_short_answer sentence qtype question"
  define verb where "verb = (\<exists>i. hosting_verb_at s i)"
  define dated where
    "dated = (\<exists>i j. i \<le> j \<and> j \<le> length s \<and> substr s i j \<in> lang MONTH_RE)"
  have v: "verb \<longleftrightarrow> re_search True rx_hosting s \<noteq> None"
    unfolding verb_def hosting_verb_search ..
  have d: "dated \<longleftrightarrow> re_search False MONTH_RE s \<noteq> None"
    unfolding dated_def date_search ..
  have R: "R = Inr a" if "host_date_rule s = Inr (Some a)" for a
    unfolding R_def using extract_combined_case[OF assms] that unfolding s_def by blast
  have whole: "R = Inr (ensure_period s)" if "verb \<and> dated"
  proof -
    from that have "host_date_rule s = Inr (Some (ensure_period s))"
      unfolding v d by (simp add: host_date_rule_def)
    then show ?thesis by (rule R)
  qed
  have both: "R = Inr (h @ '', '' @ dt @ ''.'')"
    if "\<not> (verb \<and> dated)" "host_phrase s = Some h \<and> first_date s = Some dt" for h dt
  proof -
    from that(1) have "re_search True rx_hosting s = None \<or> re_search False MONTH_RE s = None"
      unfolding v d by simp
    from host_date_rule_both[OF this] that(2) show ?thesis by (intro R) simp
  qed
  have host: "R = Inr h" if "host_phrase s = Some h \<and> first_date s = None" for h
    using host_date_rule_host[of s h] that by (intro R) simp
  have date: "R = Inr dt"
    if "\<not> (verb \<and> dated)" "host_phrase s = None \<and> first_date s = Some dt" for dt
  proof -
    from that(2) have "re_search False MONTH_RE s \<noteq> None" by (auto simp: first_date_def)
    with that(1) have "re_search True rx_hosting s = None" unfolding v d by simp
    from host_date_rule_date[OF this] that(2) show ?thesis by (intro R) simp
  qed
  show ?thesis
    unfolding Let_def s_def[symmetric] R_def[symmetric] verb_def[symmetric] dated_def[symmetric]
    using whole both host date by blast
qed

lemma demo_host_date:
  "asks_host_and_date (lower ''Who will host it and when does it start?'')"
  "strip ''Co-hosted by India and Sri Lanka, starting February 7, 2026.'' =
     ''Co-hosted by India and Sri Lanka, starting February 7, 2026.''"
  "hosting_verb_at ''Co-hosted by India and Sri Lanka, starting February 7, 2026.'' 0"
  "59 \<in> ends False ''Co-hosted by India and Sri Lanka, starting February 7, 2026.'' MONTH_RE 43"
  "ensure_period ''Co-hosted by India and Sri Lanka, starting February 7, 2026.'' =
     ''Co-hosted by India and Sri Lanka, starting February 7, 2026.''"
  by code_simp+

lemma demo_host_date_split:
  "strip ''Rehosted by India, February 7, 2026'' = ''Rehosted by India, February 7, 2026''"
  "re_search True rx_hosting ''Rehosted by India, February 7, 2026'' = None"
  "host_phrase ''Rehosted by India, February 7, 2026'' = Some ''India''"
  "first_date ''Rehosted by India, February 7, 2026'' = Some ''February 7, 2026''"
  by code_simp+

theorem host_and_date_extraction_witness:
  "asks_host_and_date (lower ''Who will host it and when does it start?'') \<and>
   hosting_verb_at ''Co-hosted by India and Sri Lanka, starting February 7, 2026.'' 0 \<and>
   substr ''Co-hosted by India and Sri Lanka, starting February 7, 2026.'' 43 59 \<in> lang MONTH_RE \<and>
   extract_short_answer ''Co-hosted by India and Sri Lanka, starting February 7, 2026.'' ''FACT''
     ''Who will host it and when does it start?'' =
     Inr ''Co-hosted by India and Sri Lanka, starting February 7, 2026.'' \<and>
   (\<nexists>i. hosting_verb_at ''Rehosted by India, February 7, 2026'' i) \<and>
   host_phrase ''Rehosted by India, February 7, 2026'' = Some ''India'' \<and>
   first_date ''Rehosted by India, February 7, 2026'' = Some ''February 7, 2026'' \<and>
   extract_short_answer ''Rehosted by India, February 7, 2026'' ''FACT''
     ''Who will host it and when does it start?'' = Inr ''India, February 7, 2026.''"
proof -
  define s where "s = ''Co-hosted by India and Sri Lanka, starting February 7, 2026.''"
  define t where "t = ''Rehosted by India, February 7, 2026''"
  define q where "q = ''Who will host it and when does it start?''"
  have a: "asks_host_and_date (lower q)" unfolding q_def by (rule demo_host_date(1))
  have l: "length s = 60" by (simp add: s_def)
  have "\<exists>c. (59, c) \<in> set (ms False s MONTH_RE 43)"
    using demo_host_date(4) unfolding ends_iff s_def .
  then have m: "substr s 43 59 \<in> lang MONTH_RE"
    using ms_lang[OF plain_MONTH_RE, of 43 s 59] l by simp
  have dated: "\<exists>i j. i \<le> j \<and> j \<le> length s \<and> substr s i j \<in> lang MONTH_RE"
    using l m by (intro exI[of _ 43] exI[of _ 59]) simp
  have verb: "\<exists>i. hosting_verb_at s i" using demo_host_date(3) unfolding s_def by blast
  from host_and_date_extraction[OF a, of s "''FACT''"]
  have "(\<exists>i. hosting_verb_at s i) \<and>
        (\<exists>i j. i \<le> j \<and> j \<le> length s \<and> substr s i j \<in> lang MONTH_RE) \<longrightarrow>
        extract_short_answer s ''FACT'' q = Inr (ensure_period s)"
    unfolding Let_def demo_host_date(2)[folded s_def] by (rule conjunct1)
  with verb dated have r1: "extract_short_answer s ''FACT'' q = Inr s"
    using demo_host_date(5)[folded s_def] by simp
  have nv: "\<nexists>i. hosting_verb_at t i"
    using hosting_verb_search[of t] demo_host_date_split(2) unfolding t_def by simp
  from host_and_date_extraction[OF a, of t "''FACT''"]
  have "\<not> ((\<exists>i. hosting_verb_at t i) \<and>
        (\<exists>i j. i \<le> j \<and> j \<le> length t \<and> substr t i j \<in> lang MONTH_RE)) \<longrightarrow>
        (\<forall>host date. host_phrase t = Some host \<and> first_date t = Some date \<longrightarrow>
           extract_short_answer t ''FACT'' q = Inr (host @ '', '' @ date @ ''.''))"
    unfolding Let_def demo_host_date_split(1)[folded t_def] by blast
  with nv demo_host_date_split(3,4)[folded t_def]
  have "extract_short_answer t ''FACT'' q = Inr (''India'' @ '', '' @ ''February 7, 2026'' @ ''.'')"
    by blast
  then have r2: "extract_short_answer t ''FACT'' q = Inr ''India, February 7, 2026.''" by simp
  show ?thesis
    using a demo_host_date(3) m r1 nv demo_host_date_split(3,4) r2
    unfolding s_def t_def q_def by (intro conjI)
qed

theorem host_and_date_verbatim_counterexample:
  "asks_host_and_date (lower ''Who will host it and when does it start?'') \<and>
   hosting_verb_at '' Co-hosted by India, starting February 7, 2026 '' 1 \<and>
   46 \<in> ends False '' Co-hosted by India, starting February 7, 2026 '' MONTH_RE 30 \<and>
   extract_short_answer '' Co-hosted by India, starting February 7, 2026 '' ''FACT''
     ''Who will host it and when does it start?'' =
     Inr ''Co-hosted by India, starting February 7, 2026.'' \<and>
   ensure_period '' Co-hosted by India, starting February 7, 2026 '' =
     '' Co-hosted by India, starting February 7, 2026 .''"
  by code_simp

end
